theory Spec2Isabelle
  imports Main "HOL-Library.Word" "HOL-Library.Sublist"
begin

section \<open>JavaScript strings\<close>

text \<open>
  A JavaScript string is a sequence of UTF-16 code units. \<open>js\<close> injects an ASCII
  literal; the characters that cannot be written inside a literal get names.
\<close>

type_synonym jschar = "16 word"
type_synonym jsstring = "jschar list"

definition js :: "string \<Rightarrow> jsstring" where
  "js s = map of_char s"

abbreviation DQUOTE :: jschar where "DQUOTE \<equiv> 0x22"
abbreviation SQUOTE :: jschar where "SQUOTE \<equiv> 0x27"
abbreviation BACKSLASH :: jschar where "BACKSLASH \<equiv> 0x5C"
abbreviation SPACE :: jschar where "SPACE \<equiv> 0x20"
abbreviation TAB :: jschar where "TAB \<equiv> 0x09"
abbreviation LF :: jschar where "LF \<equiv> 0x0A"
abbreviation CR :: jschar where "CR \<equiv> 0x0D"
abbreviation SLASH :: jschar where "SLASH \<equiv> 0x2F"

text \<open>\<open>String.prototype.startsWith\<close>, \<open>endsWith\<close> and \<open>slice\<close> (negative indices count
  from the end, both bounds are clamped to the string).\<close>

definition startsWith :: "jsstring \<Rightarrow> jsstring \<Rightarrow> bool" where
  "startsWith s p = (take (length p) s = p)"

definition endsWith :: "jsstring \<Rightarrow> jsstring \<Rightarrow> bool" where
  "endsWith s p = (length p \<le> length s \<and> drop (length s - length p) s = p)"

definition slice_index :: "nat \<Rightarrow> int \<Rightarrow> nat" where
  "slice_index len k = (if k < 0 then nat (max (int len + k) 0) else min (nat k) len)"

definition slice :: "jsstring \<Rightarrow> int \<Rightarrow> int \<Rightarrow> jsstring" where
  "slice s start end =
     (let from = slice_index (length s) start; to = slice_index (length s) end
      in take (to - from) (drop from s))"

definition slice_from :: "jsstring \<Rightarrow> nat \<Rightarrow> jsstring" where
  "slice_from s start = drop start s"

section \<open>Path codec (gitPath.ts)\<close>

text \<open>The table \<open>GIT_ESCAPE_SEQUENCES\<close>: the character after a backslash, and what it
  stands for.\<close>

definition GIT_ESCAPE_SEQUENCES :: "jschar \<Rightarrow> jschar option" where
  "GIT_ESCAPE_SEQUENCES c =
     (if c = DQUOTE then Some DQUOTE
      else if c = SQUOTE then Some SQUOTE
      else if c = SPACE then Some SPACE
      else if c = 0x74 then Some TAB
      else if c = 0x6E then Some LF
      else if c = 0x72 then Some CR
      else if c = BACKSLASH then Some BACKSLASH
      else None)"

definition stripEnclosingQuotes :: "jsstring \<Rightarrow> jsstring" where
  "stripEnclosingQuotes v =
     (if length v \<ge> 2 then
        (let startsWithDouble = (startsWith v [DQUOTE] \<and> endsWith v [DQUOTE]);
             startsWithSingle = (startsWith v [SQUOTE] \<and> endsWith v [SQUOTE])
         in if startsWithDouble \<or> startsWithSingle then slice v 1 (-1) else v)
      else v)"

text \<open>The test \<open>/[0-7]/\<close> on one character, \<open>parseInt(octal, 8)\<close> on a run of octal
  digits, and \<open>String.fromCharCode\<close>.\<close>

definition is_octal :: "jschar \<Rightarrow> bool" where
  "is_octal c = (0x30 \<le> c \<and> c \<le> 0x37)"

definition parseInt8 :: "jsstring \<Rightarrow> nat" where
  "parseInt8 ds = foldl (\<lambda>n d. 8 * n + (unat d - 48)) 0 ds"

definition fromCharCode :: "nat \<Rightarrow> jschar" where
  "fromCharCode n = of_nat n"

text \<open>
  \<open>unescapeGitPath\<close>: the loop over the index \<open>i\<close> becomes a recursion over the rest of
  the string from \<open>i\<close> on. A backslash that is not the last character is looked up in
  the table; failing that, an octal digit starts a run of at most three digits; failing
  that, the backslash is copied and the scan resumes at the next character.
\<close>

fun unescapeGitPath :: "jsstring \<Rightarrow> jsstring" where
  "unescapeGitPath [] = []"
| "unescapeGitPath [c] = [c]"
| "unescapeGitPath (c # next # rest) =
     (if c = BACKSLASH then
        (case GIT_ESCAPE_SEQUENCES next of
           Some mapped \<Rightarrow> mapped # unescapeGitPath rest
         | None \<Rightarrow>
             if is_octal next then
               (let more = takeWhile is_octal (take 2 rest)
                in fromCharCode (parseInt8 (next # more))
                     # unescapeGitPath (drop (length more) rest))
             else c # unescapeGitPath (next # rest))
      else c # unescapeGitPath (next # rest))"

definition DEV_NULL :: jsstring where
  "DEV_NULL = js ''/dev/null''"

definition normalizeGitPath :: "jsstring \<Rightarrow> jsstring" where
  "normalizeGitPath rawPath =
     (let withoutQuotes = stripEnclosingQuotes rawPath;
          unescaped = unescapeGitPath withoutQuotes
      in if unescaped = DEV_NULL then unescaped
         else if startsWith unescaped (js ''a/'') then slice_from unescaped 2
         else if startsWith unescaped (js ''b/'') then slice_from unescaped 2
         else unescaped)"

text \<open>
  \<open>tokenizeDiffGitPaths\<close>: the loop state is \<open>tokens\<close>, \<open>current\<close>, \<open>inQuotes\<close> and
  \<open>escaped\<close>; the first argument is the input from index \<open>i\<close> on. The inner
  \<open>while\<close> that steps over the spaces following a separator is the \<open>dropWhile\<close>.
\<close>

definition push_current :: "jsstring list \<Rightarrow> jsstring \<Rightarrow> jsstring list" where
  "push_current tokens current = (if length current > 0 then tokens @ [current] else tokens)"

function tokenize_loop ::
  "jsstring \<Rightarrow> jsstring list \<Rightarrow> jsstring \<Rightarrow> bool \<Rightarrow> bool \<Rightarrow> jsstring list" where
  "tokenize_loop [] tokens current inQuotes escaped = push_current tokens current"
| "tokenize_loop (char # rest) tokens current inQuotes escaped =
     (if escaped then tokenize_loop rest tokens (current @ [char]) inQuotes False
      else if char = BACKSLASH then tokenize_loop rest tokens (current @ [char]) inQuotes True
      else if char = DQUOTE then tokenize_loop rest tokens (current @ [char]) (\<not> inQuotes) escaped
      else if char = SPACE \<and> \<not> inQuotes then
        tokenize_loop (dropWhile (\<lambda>c. c = SPACE) rest) (push_current tokens current) []
          inQuotes escaped
      else tokenize_loop rest tokens (current @ [char]) inQuotes escaped)"
  by pat_completeness auto
termination
  by (relation "measure (\<lambda>(input, tokens, current, inQuotes, escaped). length input)")
     (auto simp: less_Suc_eq_le length_dropWhile_le)

definition tokenizeDiffGitPaths :: "jsstring \<Rightarrow> jsstring list" where
  "tokenizeDiffGitPaths input = tokenize_loop input [] [] False False"

definition isValidOld :: "jsstring \<Rightarrow> bool" where
  "isValidOld unquotedOld = (unquotedOld = DEV_NULL \<or> startsWith unquotedOld (js ''a/''))"

definition isValidNew :: "jsstring \<Rightarrow> bool" where
  "isValidNew unquotedNew = (unquotedNew = DEV_NULL \<or> startsWith unquotedNew (js ''b/''))"

definition splitDiffGitHeaderPaths :: "jsstring \<Rightarrow> (jsstring \<times> jsstring) option" where
  "splitDiffGitHeaderPaths headerRemainder =
     (if headerRemainder = [] then None
      else
        (case tokenizeDiffGitPaths headerRemainder of
           [rawOldPath, rawNewPath] \<Rightarrow>
             if \<not> isValidOld (stripEnclosingQuotes rawOldPath)
                \<or> \<not> isValidNew (stripEnclosingQuotes rawNewPath)
             then None
             else Some (rawOldPath, rawNewPath)
         | _ \<Rightarrow> None))"

subsection \<open>The tokenizer as the specification words it\<close>

text \<open>
  The specification describes the tokenizer by which spaces split: a space splits unless
  it is escaped by the backslash before it or lies inside a double-quoted region, and
  runs of splitting spaces are collapsed. \<open>separators\<close> marks the splitting spaces,
  \<open>pieces\<close> cuts the input at them, and \<open>spec_tokens\<close> drops the empty pieces.
\<close>

fun separators :: "bool \<Rightarrow> bool \<Rightarrow> jsstring \<Rightarrow> bool list" where
  "separators inQuotes escaped [] = []"
| "separators inQuotes escaped (c # cs) =
     (if escaped then False # separators inQuotes False cs
      else if c = BACKSLASH then False # separators inQuotes True cs
      else if c = DQUOTE then False # separators (\<not> inQuotes) False cs
      else (c = SPACE \<and> \<not> inQuotes) # separators inQuotes False cs)"

fun pieces :: "jsstring \<Rightarrow> (jschar \<times> bool) list \<Rightarrow> jsstring list" where
  "pieces cur [] = [cur]"
| "pieces cur ((c, sep) # r) = (if sep then cur # pieces [] r else pieces (cur @ [c]) r)"

definition spec_tokens_from :: "jsstring \<Rightarrow> bool \<Rightarrow> bool \<Rightarrow> jsstring \<Rightarrow> jsstring list" where
  "spec_tokens_from cur inQuotes escaped s =
     filter (\<lambda>t. t \<noteq> []) (pieces cur (zip s (separators inQuotes escaped s)))"

definition spec_tokens :: "jsstring \<Rightarrow> jsstring list" where
  "spec_tokens s = spec_tokens_from [] False False s"

definition unsplit_chars :: "jsstring \<Rightarrow> jsstring" where
  "unsplit_chars s =
     map fst (filter (\<lambda>(c, sep). \<not> sep) (zip s (separators False False s)))"


section \<open>Diff parser (unifiedDiff.ts)\<close>

subsection \<open>String helpers\<close>

text \<open>\<open>diff.replace(/\r\n/g, "\n")\<close> and \<open>split("\n")\<close>. Splitting the empty string gives
  one empty line.\<close>

fun replace_crlf :: "jsstring \<Rightarrow> jsstring" where
  "replace_crlf [] = []"
| "replace_crlf [c] = [c]"
| "replace_crlf (c # d # r) =
     (if c = CR \<and> d = LF then LF # replace_crlf r else c # replace_crlf (d # r))"

fun split_on :: "jschar \<Rightarrow> jsstring \<Rightarrow> jsstring list" where
  "split_on sep [] = [[]]"
| "split_on sep (c # cs) =
     (if c = sep then [] # split_on sep cs
      else (case split_on sep cs of
              [] \<Rightarrow> [[c]]
            | l # ls \<Rightarrow> (c # l) # ls))"

text \<open>\<open>String.prototype.trim\<close> removes white space and line terminators at both ends.\<close>

definition is_js_whitespace :: "jschar \<Rightarrow> bool" where
  "is_js_whitespace c =
     (c = 0x09 \<or> c = 0x0A \<or> c = 0x0B \<or> c = 0x0C \<or> c = 0x0D \<or> c = 0x20 \<or> c = 0xA0
      \<or> c = 0x1680 \<or> (0x2000 \<le> c \<and> c \<le> 0x200A) \<or> c = 0x2028 \<or> c = 0x2029
      \<or> c = 0x202F \<or> c = 0x205F \<or> c = 0x3000 \<or> c = 0xFEFF)"

definition trim :: "jsstring \<Rightarrow> jsstring" where
  "trim s = rev (dropWhile is_js_whitespace (rev (dropWhile is_js_whitespace s)))"

text \<open>
  \<open>\d\<close> in a regular expression without the \<open>u\<close> flag, and \<open>Number\<close> on a run of
  digits.

  A JavaScript number is a double. The numbers of the parser are the values of
  \<open>Number\<close> on runs of digits and what \<open>+= 1\<close> makes of them: non-negative integers that
  a double can hold, or \<open>Infinity\<close>: the type \<open>number\<close>. \<open>to_double\<close> rounds a natural
  number to the nearest double, ties to the
  even significand of 53 bits, and to \<open>Infinity\<close> from \<open>2^1024\<close> on: \<open>ulp_exponent n\<close> is
  the number of low bits that the significand of \<open>n\<close> cannot hold. Every natural number up
  to \<open>2^53\<close> is a double. \<open>Number\<close> on a run of digits is the rounded decimal value (the
  engines round correctly; the standard lets them round less exactly beyond twenty
  significant digits), and \<open>plus_one\<close> is \<open>+= 1\<close>, the rounded sum.
\<close>

definition is_digit :: "jschar \<Rightarrow> bool" where
  "is_digit c = (0x30 \<le> c \<and> c \<le> 0x39)"

datatype number = Finite nat | Infinity

definition decimal :: "jsstring \<Rightarrow> nat" where
  "decimal ds = foldl (\<lambda>n d. 10 * n + (unat d - 48)) 0 ds"

function ulp_exponent :: "nat \<Rightarrow> nat" where
  "ulp_exponent n = (if n < 2 ^ 53 then 0 else Suc (ulp_exponent (n div 2)))"
  by pat_completeness auto
termination
  by (relation "measure id") auto

definition to_double :: "nat \<Rightarrow> number" where
  "to_double n =
     (if n < 2 ^ 53 then Finite n
      else (let e = ulp_exponent n;
                q = n div 2 ^ e;
                r = n mod 2 ^ e;
                m = (if 2 * r > 2 ^ e \<or> (2 * r = 2 ^ e \<and> odd q) then q + 1 else q) * 2 ^ e
            in if m < 2 ^ 1024 then Finite m else Infinity))"

definition Number :: "jsstring \<Rightarrow> number" where
  "Number ds = to_double (decimal ds)"

definition plus_one :: "number \<Rightarrow> number" where
  "plus_one x = (case x of Finite n \<Rightarrow> to_double (n + 1) | Infinity \<Rightarrow> Infinity)"

text \<open>The characters that \<open>.\<close> does not match: the line terminators.\<close>

definition is_line_terminator :: "jschar \<Rightarrow> bool" where
  "is_line_terminator c = (c = LF \<or> c = CR \<or> c = 0x2028 \<or> c = 0x2029)"

subsection \<open>The hunk header pattern\<close>

text \<open>
  \<open>HUNK_HEADER_REGEX = /^@@ -(\d+)(?:,(\d+))? \+(\d+)(?:,(\d+))? @@ ?(.*)$/\<close>, matched
  from the left. Each group is followed by a character it cannot itself match, so the
  greedy choice is the only one: \<open>digits_then\<close> is \<open>(\d+)\<close>, \<open>optional_length\<close> is
  \<open>(?:,(\d+))?\<close>, and the heading is the rest of the line after one optional space,
  which must hold no line terminator for \<open>(.*)$\<close> to reach the end. The result is the
  five groups; an optional group that took no part is \<open>None\<close>.
\<close>

definition strip_prefix :: "jsstring \<Rightarrow> jsstring \<Rightarrow> jsstring option" where
  "strip_prefix p s = (if startsWith s p then Some (drop (length p) s) else None)"

definition digits_then :: "jsstring \<Rightarrow> (jsstring \<times> jsstring) option" where
  "digits_then s =
     (let ds = takeWhile is_digit s
      in if ds = [] then None else Some (ds, dropWhile is_digit s))"

definition optional_length :: "jsstring \<Rightarrow> jsstring option \<times> jsstring" where
  "optional_length s =
     (case strip_prefix (js '','') s of
        None \<Rightarrow> (None, s)
      | Some r \<Rightarrow>
          (case digits_then r of
             None \<Rightarrow> (None, s)
           | Some (ds, r') \<Rightarrow> (Some ds, r')))"

definition match_hunk_header ::
  "jsstring \<Rightarrow> (jsstring \<times> jsstring option \<times> jsstring \<times> jsstring option \<times> jsstring) option" where
  "match_hunk_header line =
     (case strip_prefix (js ''@@ -'') line of
        None \<Rightarrow> None
      | Some r1 \<Rightarrow>
     (case digits_then r1 of
        None \<Rightarrow> None
      | Some (oldStart, r2) \<Rightarrow>
     (case optional_length r2 of (oldLength, r3) \<Rightarrow>
     (case strip_prefix (js '' +'') r3 of
        None \<Rightarrow> None
      | Some r4 \<Rightarrow>
     (case digits_then r4 of
        None \<Rightarrow> None
      | Some (newStart, r5) \<Rightarrow>
     (case optional_length r5 of (newLength, r6) \<Rightarrow>
     (case strip_prefix (js '' @@'') r6 of
        None \<Rightarrow> None
      | Some r7 \<Rightarrow>
          (let heading = (if startsWith r7 [SPACE] then drop 1 r7 else r7)
           in if list_ex is_line_terminator heading then None
              else Some (oldStart, oldLength, newStart, newLength, heading)))))))))"

subsection \<open>The diff types\<close>

datatype DiffLineType = Context | Add | Remove

record DiffLine =
  type :: DiffLineType
  content :: jsstring
  oldLineNumber :: "number option"
  newLineNumber :: "number option"
  noNewlineAtEndOfFile :: "bool option"

record DiffHunk =
  header :: jsstring
  oldStart :: number
  oldLines :: number
  newStart :: number
  newLines :: number
  sectionHeading :: "jsstring option"
  lines :: "DiffLine list"

text \<open>The \<open>rename\<close> object is built by spreading the previous one, so at run time any of
  its four fields may be absent; likewise \<open>modeChange\<close>.\<close>

record Rename =
  rename_from :: "jsstring option"
  rename_to :: "jsstring option"
  rawFrom :: "jsstring option"
  rawTo :: "jsstring option"

record ModeChange =
  oldMode :: "jsstring option"
  newMode :: "jsstring option"

record DiffFile =
  oldPath :: jsstring
  newPath :: jsstring
  rawOldPath :: jsstring
  rawNewPath :: jsstring
  hunks :: "DiffHunk list"
  isBinary :: bool
  isNewFile :: bool
  isDeletedFile :: bool
  rename :: "Rename option"
  modeChange :: "ModeChange option"
  index :: "jsstring option"

definition DIFF_GIT_PREFIX :: jsstring where
  "DIFF_GIT_PREFIX = js ''diff --git ''"

definition NO_NEWLINE_MARKER :: jsstring where
  "NO_NEWLINE_MARKER = BACKSLASH # js '' No newline at end of file''"

subsection \<open>The lines of one file\<close>

text \<open>
  \<open>currentFile\<close> and \<open>currentHunk\<close> are references to objects that were pushed onto
  \<open>files\<close> and onto the current file's \<open>hunks\<close> when they were created. The model
  keeps the arrays as the store: \<open>currentFile\<close> is the index of the file object in
  \<open>files\<close>, \<open>currentHunk\<close> the index of the hunk object in that file's \<open>hunks\<close>, and
  \<open>undefined\<close> is \<open>None\<close>. A line that is not a \<open>diff --git\<close> header touches only the
  current file object and the local variables \<open>currentHunk\<close>, \<open>oldLineNumber\<close>,
  \<open>newLineNumber\<close>: \<open>file_line\<close> maps these four to their new values, branch by
  branch in the order of the source.
\<close>

definition orEmptyMode :: "ModeChange option \<Rightarrow> ModeChange" where
  "orEmptyMode m = (case m of None \<Rightarrow> \<lparr>oldMode = None, newMode = None\<rparr> | Some mc \<Rightarrow> mc)"

definition orEmptyRename :: "Rename option \<Rightarrow> Rename" where
  "orEmptyRename r =
     (case r of
        None \<Rightarrow> \<lparr>rename_from = None, rename_to = None, rawFrom = None, rawTo = None\<rparr>
      | Some rn \<Rightarrow> rn)"

definition after :: "jsstring \<Rightarrow> jsstring \<Rightarrow> jsstring" where
  "after p line = slice_from line (length p)"

definition new_hunk ::
  "jsstring \<Rightarrow> jsstring \<Rightarrow> jsstring option \<Rightarrow> jsstring \<Rightarrow> jsstring option \<Rightarrow> jsstring \<Rightarrow> DiffHunk" where
  "new_hunk line oldStartText oldLength newStartText newLength heading =
     \<lparr>header = line,
      oldStart = Number oldStartText,
      oldLines = (case oldLength of Some l \<Rightarrow> Number l | None \<Rightarrow> Finite 1),
      newStart = Number newStartText,
      newLines = (case newLength of Some l \<Rightarrow> Number l | None \<Rightarrow> Finite 1),
      sectionHeading = (if trim heading \<noteq> [] then Some (trim heading) else None),
      lines = []\<rparr>"

definition update_hunk :: "nat \<Rightarrow> (DiffHunk \<Rightarrow> DiffHunk) \<Rightarrow> DiffFile \<Rightarrow> DiffFile" where
  "update_hunk j g f = f\<lparr>hunks := (hunks f)[j := g (hunks f ! j)]\<rparr>"

definition push_line :: "DiffLine \<Rightarrow> DiffHunk \<Rightarrow> DiffHunk" where
  "push_line l h = h\<lparr>lines := lines h @ [l]\<rparr>"

definition mark_last_line :: "DiffHunk \<Rightarrow> DiffHunk" where
  "mark_last_line h =
     (if lines h = [] then h
      else h\<lparr>lines := butlast (lines h)
                 @ [(last (lines h))\<lparr>noNewlineAtEndOfFile := Some True\<rparr>]\<rparr>)"

definition hunk_line ::
  "DiffFile \<times> nat \<times> number \<times> number \<Rightarrow> jsstring \<Rightarrow> DiffFile \<times> nat option \<times> number \<times> number" where
  "hunk_line st line =
     (case st of (f, j, oldNo, newNo) \<Rightarrow>
        if line = NO_NEWLINE_MARKER then (update_hunk j mark_last_line f, Some j, oldNo, newNo)
        else
          (case line of
             [] \<Rightarrow> (f, Some j, oldNo, newNo)
           | marker # rest \<Rightarrow>
               if marker = SPACE then
                 (update_hunk j (push_line \<lparr>type = Context, content = rest,
                      oldLineNumber = Some oldNo, newLineNumber = Some newNo,
                      noNewlineAtEndOfFile = None\<rparr>) f,
                  Some j, plus_one oldNo, plus_one newNo)
               else if marker = 0x2B then
                 (update_hunk j (push_line \<lparr>type = Add, content = rest,
                      oldLineNumber = None, newLineNumber = Some newNo,
                      noNewlineAtEndOfFile = None\<rparr>) f,
                  Some j, oldNo, plus_one newNo)
               else if marker = 0x2D then
                 (update_hunk j (push_line \<lparr>type = Remove, content = rest,
                      oldLineNumber = Some oldNo, newLineNumber = None,
                      noNewlineAtEndOfFile = None\<rparr>) f,
                  Some j, plus_one oldNo, newNo)
               else (f, Some j, oldNo, newNo)))"

definition file_line ::
  "DiffFile \<times> nat option \<times> number \<times> number \<Rightarrow> jsstring \<Rightarrow> DiffFile \<times> nat option \<times> number \<times> number" where
  "file_line st line =
     (case st of (f, curHunk, oldNo, newNo) \<Rightarrow>
        if startsWith line (js ''index '') then
          (f\<lparr>index := Some (trim (after (js ''index '') line))\<rparr>, curHunk, oldNo, newNo)
        else if startsWith line (js ''new file mode '') then
          (f\<lparr>isNewFile := True,
             modeChange := Some ((orEmptyMode (modeChange f))
               \<lparr>newMode := Some (trim (after (js ''new file mode '') line))\<rparr>)\<rparr>,
           curHunk, oldNo, newNo)
        else if startsWith line (js ''deleted file mode '') then
          (f\<lparr>isDeletedFile := True,
             modeChange := Some ((orEmptyMode (modeChange f))
               \<lparr>oldMode := Some (trim (after (js ''deleted file mode '') line))\<rparr>)\<rparr>,
           curHunk, oldNo, newNo)
        else if startsWith line (js ''old mode '') then
          (f\<lparr>modeChange := Some ((orEmptyMode (modeChange f))
               \<lparr>oldMode := Some (trim (after (js ''old mode '') line))\<rparr>)\<rparr>,
           curHunk, oldNo, newNo)
        else if startsWith line (js ''new mode '') then
          (f\<lparr>modeChange := Some ((orEmptyMode (modeChange f))
               \<lparr>newMode := Some (trim (after (js ''new mode '') line))\<rparr>)\<rparr>,
           curHunk, oldNo, newNo)
        else if startsWith line (js ''rename from '') then
          (let rawFromText = after (js ''rename from '') line;
               fromPath = normalizeGitPath rawFromText
           in (f\<lparr>rename := Some ((orEmptyRename (rename f))
                    \<lparr>rename_from := Some fromPath, rawFrom := Some rawFromText\<rparr>),
                 oldPath := fromPath\<rparr>,
               curHunk, oldNo, newNo))
        else if startsWith line (js ''rename to '') then
          (let rawToText = after (js ''rename to '') line;
               toPath = normalizeGitPath rawToText
           in (f\<lparr>rename := Some ((orEmptyRename (rename f))
                    \<lparr>rename_to := Some toPath, rawTo := Some rawToText\<rparr>),
                 newPath := toPath\<rparr>,
               curHunk, oldNo, newNo))
        else if startsWith line (js ''--- '') then
          (let normalized = normalizeGitPath (slice_from line 4)
           in (f\<lparr>oldPath := normalized,
                 isNewFile := (if normalized = DEV_NULL then True else isNewFile f)\<rparr>,
               curHunk, oldNo, newNo))
        else if startsWith line (js ''+++ '') then
          (let normalized = normalizeGitPath (slice_from line 4)
           in (f\<lparr>newPath := normalized,
                 isDeletedFile := (if normalized = DEV_NULL then True else isDeletedFile f)\<rparr>,
               curHunk, oldNo, newNo))
        else if startsWith line (js ''Binary files '') then
          (f\<lparr>isBinary := True\<rparr>, None, oldNo, newNo)
        else
          (case match_hunk_header line of
             Some (oldStartText, oldLength, newStartText, newLength, heading) \<Rightarrow>
               (f\<lparr>hunks := hunks f
                     @ [new_hunk line oldStartText oldLength newStartText newLength heading]\<rparr>,
                Some (length (hunks f)), Number oldStartText, Number newStartText)
           | None \<Rightarrow>
               (case curHunk of
                  None \<Rightarrow> (f, curHunk, oldNo, newNo)
                | Some j \<Rightarrow> hunk_line (f, j, oldNo, newNo) line)))"

subsection \<open>The parser loop\<close>

record parser_state =
  files :: "DiffFile list"
  currentFile :: "nat option"
  currentHunk :: "nat option"
  oldLine :: number
  newLine :: number

definition new_file :: "jsstring \<Rightarrow> jsstring \<Rightarrow> DiffFile" where
  "new_file rawOld rawNew =
     \<lparr>oldPath = normalizeGitPath rawOld, newPath = normalizeGitPath rawNew,
      rawOldPath = rawOld, rawNewPath = rawNew, hunks = [],
      isBinary = False, isNewFile = False, isDeletedFile = False,
      rename = None, modeChange = None, index = None\<rparr>"

definition step :: "parser_state \<Rightarrow> jsstring \<Rightarrow> parser_state" where
  "step s line =
     (if startsWith line DIFF_GIT_PREFIX then
        (case splitDiffGitHeaderPaths (slice_from line (length DIFF_GIT_PREFIX)) of
           None \<Rightarrow> s\<lparr>currentFile := None, currentHunk := None\<rparr>
         | Some (rawOld, rawNew) \<Rightarrow>
             s\<lparr>files := files s @ [new_file rawOld rawNew],
               currentFile := Some (length (files s)),
               currentHunk := None\<rparr>)
      else
        (case currentFile s of
           None \<Rightarrow> s
         | Some i \<Rightarrow>
             (case file_line (files s ! i, currentHunk s, oldLine s, newLine s) line of
                (f, h, oldNo, newNo) \<Rightarrow>
                  s\<lparr>files := (files s)[i := f], currentHunk := h,
                    oldLine := oldNo, newLine := newNo\<rparr>)))"

definition initial_state :: parser_state where
  "initial_state =
     \<lparr>files = [], currentFile = None, currentHunk = None,
      oldLine = Finite 0, newLine = Finite 0\<rparr>"

definition parse_lines :: "jsstring list \<Rightarrow> DiffFile list" where
  "parse_lines ls = files (foldl step initial_state ls)"

definition parseUnifiedDiff :: "jsstring \<Rightarrow> DiffFile list" where
  "parseUnifiedDiff diff = parse_lines (split_on LF (replace_crlf diff))"

subsection \<open>Line numbering of a hunk\<close>









definition room :: "number \<Rightarrow> nat \<Rightarrow> bool" where
  "room x k = (case x of Finite n \<Rightarrow> n + k \<le> 2 ^ 53 | Infinity \<Rightarrow> False)"










subsection \<open>Malformed headers\<close>

text \<open>
  A header line is one that starts with \<open>diff --git \<close>; it is malformed when the rest
  of it does not split into two valid path tokens. \<open>resumes_at_header\<close> says that what
  follows the skipped lines is the end of the input or the next header line.
\<close>

definition is_header :: "jsstring \<Rightarrow> bool" where
  "is_header line = startsWith line DIFF_GIT_PREFIX"

definition malformed_header :: "jsstring \<Rightarrow> bool" where
  "malformed_header line =
     (is_header line
      \<and> splitDiffGitHeaderPaths (slice_from line (length DIFF_GIT_PREFIX)) = None)"

definition resumes_at_header :: "jsstring list \<Rightarrow> bool" where
  "resumes_at_header rest = (case rest of [] \<Rightarrow> True | l # ls \<Rightarrow> is_header l)"

definition reset :: "parser_state \<Rightarrow> parser_state" where
  "reset s = s\<lparr>currentFile := None, currentHunk := None\<rparr>"

subsection \<open>File flags\<close>

text \<open>
  The two invariants the data model states for a file: \<open>/dev/null\<close> on the old side
  means a new file and on the new side a deleted one; a binary file has no hunks.
\<close>

definition devnull_flagged :: "DiffFile \<Rightarrow> bool" where
  "devnull_flagged f =
     ((oldPath f = DEV_NULL \<longrightarrow> isNewFile f) \<and> (newPath f = DEV_NULL \<longrightarrow> isDeletedFile f))"

definition binary_without_hunks :: "DiffFile \<Rightarrow> bool" where
  "binary_without_hunks f = (isBinary f \<longrightarrow> hunks f = [])"

text \<open>
  Two conditions on the lines of an input. \<open>names_no_devnull\<close>: the line is not a header
  with a token that normalizes to \<open>/dev/null\<close>, nor a \<open>rename from\<close> or \<open>rename to\<close>
  line with such a path; these lines set a path without looking at it.
  \<open>binary_hunk_apart\<close>: no section (the lines from one header line to the next) holds
  both a \<open>Binary files\<close> line and a hunk header; its two flags say whether the section
  read so far holds one and the other.
\<close>

definition names_no_devnull :: "jsstring \<Rightarrow> bool" where
  "names_no_devnull line =
     ((is_header line \<longrightarrow>
        (case splitDiffGitHeaderPaths (slice_from line (length DIFF_GIT_PREFIX)) of
           None \<Rightarrow> True
         | Some (rawOld, rawNew) \<Rightarrow>
             normalizeGitPath rawOld \<noteq> DEV_NULL \<and> normalizeGitPath rawNew \<noteq> DEV_NULL))
      \<and> (startsWith line (js ''rename from '') \<longrightarrow>
            normalizeGitPath (after (js ''rename from '') line) \<noteq> DEV_NULL)
      \<and> (startsWith line (js ''rename to '') \<longrightarrow>
            normalizeGitPath (after (js ''rename to '') line) \<noteq> DEV_NULL))"

text \<open>The invariant for the second condition: files other than the current one are
  binary only without hunks; the current one is binary only if its section had a
  \<open>Binary files\<close> line, and has hunks only if its section had a hunk header.\<close>

definition binary_inv :: "parser_state \<Rightarrow> bool \<Rightarrow> bool \<Rightarrow> bool" where
  "binary_inv s sawBinary sawHunk =
     (\<not> (sawBinary \<and> sawHunk)
      \<and> (\<forall>k < length (files s).
            if currentFile s = Some k
            then (isBinary (files s ! k) \<longrightarrow> sawBinary) \<and> (hunks (files s ! k) \<noteq> [] \<longrightarrow> sawHunk)
            else binary_without_hunks (files s ! k)))"

fun binary_hunk_apart :: "bool \<Rightarrow> bool \<Rightarrow> jsstring list \<Rightarrow> bool" where
  "binary_hunk_apart sawBinary sawHunk [] = True"
| "binary_hunk_apart sawBinary sawHunk (l # ls) =
     (if is_header l then binary_hunk_apart False False ls
      else
        (let b = (sawBinary \<or> startsWith l (js ''Binary files ''));
             h = (sawHunk \<or> match_hunk_header l \<noteq> None)
         in \<not> (b \<and> h) \<and> binary_hunk_apart b h ls))"

section \<open>Sandbox resolver (tools.ts)\<close>

subsection \<open>The POSIX functions of \<open>node:path\<close>\<close>

text \<open>
  \<open>resolveWithinRepo\<close> calls \<open>path.resolve\<close>, \<open>path.relative\<close> and \<open>path.isAbsolute\<close> of
  the Node.js runtime. They are modelled here as Node.js documents and implements them
  for POSIX paths. \<open>path.resolve\<close> joins its arguments from the right until one of them
  is absolute, falling back on the working directory, and normalizes the result: empty
  and \<open>.\<close> segments are dropped and \<open>..\<close> removes the segment before it, staying at the
  root of an absolute path. \<open>path.relative\<close> resolves both paths, drops their common
  leading segments, and answers one \<open>..\<close> for each remaining segment of \<open>from\<close> followed
  by the remaining segments of \<open>to\<close>. The working directory \<open>cwd\<close> is a parameter.
\<close>

definition isAbsolute :: "jsstring \<Rightarrow> bool" where
  "isAbsolute p = startsWith p [SLASH]"

definition DOT :: jsstring where "DOT = js ''.''"

definition DOTDOT :: jsstring where "DOTDOT = js ''..''"

fun normalizeString :: "bool \<Rightarrow> jsstring list \<Rightarrow> jsstring list \<Rightarrow> jsstring list" where
  "normalizeString allowAboveRoot res [] = res"
| "normalizeString allowAboveRoot res (s # ss) =
     (if s = [] \<or> s = DOT then normalizeString allowAboveRoot res ss
      else if s = DOTDOT then
        (if res \<noteq> [] \<and> last res \<noteq> DOTDOT then normalizeString allowAboveRoot (butlast res) ss
         else if allowAboveRoot then normalizeString allowAboveRoot (res @ [DOTDOT]) ss
         else normalizeString allowAboveRoot res ss)
      else normalizeString allowAboveRoot (res @ [s]) ss)"

fun join_with :: "jschar \<Rightarrow> jsstring list \<Rightarrow> jsstring" where
  "join_with sep [] = []"
| "join_with sep [s] = s"
| "join_with sep (s # t # ss) = s @ sep # join_with sep (t # ss)"

fun resolvedPath :: "jsstring list \<Rightarrow> jsstring" where
  "resolvedPath [] = []"
| "resolvedPath (p # ps) =
     (if list_ex isAbsolute ps then resolvedPath ps
      else if p = [] then resolvedPath ps
      else p @ SLASH # resolvedPath ps)"

definition resolve_segments :: "jsstring \<Rightarrow> jsstring list \<Rightarrow> jsstring list" where
  "resolve_segments cwd args =
     normalizeString (\<not> list_ex isAbsolute (cwd # args)) []
       (split_on SLASH (resolvedPath (cwd # args)))"

definition path_resolve :: "jsstring \<Rightarrow> jsstring list \<Rightarrow> jsstring" where
  "path_resolve cwd args =
     (if list_ex isAbsolute (cwd # args)
      then SLASH # join_with SLASH (resolve_segments cwd args)
      else if resolve_segments cwd args = [] then DOT
      else join_with SLASH (resolve_segments cwd args))"

fun common_length :: "jsstring list \<Rightarrow> jsstring list \<Rightarrow> nat" where
  "common_length (x # xs) (y # ys) = (if x = y then Suc (common_length xs ys) else 0)"
| "common_length xs ys = 0"

definition path_relative :: "jsstring \<Rightarrow> jsstring \<Rightarrow> jsstring \<Rightarrow> jsstring" where
  "path_relative cwd fromPath toPath =
     (let fromSegs = resolve_segments cwd [fromPath];
          toSegs = resolve_segments cwd [toPath];
          common = common_length fromSegs toSegs
      in join_with SLASH
           (replicate (length fromSegs - common) DOTDOT @ drop common toSegs))"

subsection \<open>\<open>resolveWithinRepo\<close> and \<open>toRepoRelative\<close>\<close>

text \<open>The two \<open>throw new Error(...)\<close> of \<open>resolveWithinRepo\<close> are the two errors.\<close>

datatype path_error = PathEmpty | PathEscape

definition resolveWithinRepo :: "jsstring \<Rightarrow> jsstring \<Rightarrow> jsstring \<Rightarrow> path_error + jsstring" where
  "resolveWithinRepo cwd repoRoot relativePath =
     (let trimmed = trim relativePath
      in if length trimmed = 0 then Inl PathEmpty
         else
           (let absolute = path_resolve cwd [repoRoot, trimmed];
                normalizedRoot = path_resolve cwd [repoRoot];
                relative = path_relative cwd normalizedRoot absolute
            in if startsWith relative DOTDOT \<or> isAbsolute relative then Inl PathEscape
               else Inr absolute))"

definition toRepoRelative :: "jsstring \<Rightarrow> jsstring \<Rightarrow> jsstring \<Rightarrow> jsstring" where
  "toRepoRelative cwd repoRoot absolutePath =
     (let normalizedRoot = path_resolve cwd [repoRoot];
          relative = path_relative cwd normalizedRoot absolutePath
      in if relative = [] then DOT else relative)"

text \<open>A segment of a normalized absolute path: not empty, not \<open>.\<close> or \<open>..\<close>, and
  without a slash.\<close>

definition clean :: "jsstring \<Rightarrow> bool" where
  "clean seg = (seg \<noteq> [] \<and> seg \<noteq> DOT \<and> seg \<noteq> DOTDOT \<and> SLASH \<notin> set seg)"

section \<open>Content tools (tools.ts)\<close>

subsection \<open>Ignored directories\<close>

text \<open>\<open>splitPathSegments\<close> splits at runs of \<open>/\<close> and \<open>\\<close>, trims the pieces and drops
  the empty ones; \<open>includesIgnoredDirectory\<close> looks for an ignored name among them.\<close>

fun split_where :: "(jschar \<Rightarrow> bool) \<Rightarrow> jsstring \<Rightarrow> jsstring list" where
  "split_where sep [] = [[]]"
| "split_where sep (c # cs) =
     (if sep c then [] # split_where sep cs
      else (case split_where sep cs of
              [] \<Rightarrow> [[c]]
            | l # ls \<Rightarrow> (c # l) # ls))"

definition splitPathSegments :: "jsstring \<Rightarrow> jsstring list" where
  "splitPathSegments relativePath =
     filter (\<lambda>segment. length segment > 0)
       (map trim (split_where (\<lambda>c. c = SLASH \<or> c = BACKSLASH) relativePath))"

definition IGNORED_DIRECTORY_NAMES :: "jsstring list" where
  "IGNORED_DIRECTORY_NAMES =
     [js ''.git'', js ''node_modules'', js ''dist'', js ''.beads'', js ''.claude'', js ''.turbo'']"

definition includesIgnoredDirectory :: "jsstring \<Rightarrow> bool" where
  "includesIgnoredDirectory relativePath =
     (if relativePath = [] \<or> relativePath = DOT then False
      else list_ex (\<lambda>segment. segment \<in> set IGNORED_DIRECTORY_NAMES)
             (splitPathSegments relativePath))"

subsection \<open>Glob\<close>

text \<open>
  \<open>sortDistinct\<close>: \<open>Array.from(new Set(values))\<close> keeps the first occurrence of each
  string, in order; \<open>sort\<close> with a comparison function is stable, so it is the insertion
  of each element before the first one it does not come after. The comparison
  \<open>a.localeCompare(b, undefined, {sensitivity: "base"})\<close> belongs to the runtime and is a
  parameter \<open>cmp\<close>, negative, zero or positive.
\<close>

fun dedupe_first :: "'a list \<Rightarrow> 'a list \<Rightarrow> 'a list" where
  "dedupe_first seen [] = []"
| "dedupe_first seen (v # vs) =
     (if v \<in> set seen then dedupe_first seen vs else v # dedupe_first (v # seen) vs)"

fun insert_sorted :: "(jsstring \<Rightarrow> jsstring \<Rightarrow> int) \<Rightarrow> jsstring \<Rightarrow> jsstring list \<Rightarrow> jsstring list" where
  "insert_sorted cmp a [] = [a]"
| "insert_sorted cmp a (b # bs) =
     (if cmp a b \<le> 0 then a # b # bs else b # insert_sorted cmp a bs)"

definition stable_sort :: "(jsstring \<Rightarrow> jsstring \<Rightarrow> int) \<Rightarrow> jsstring list \<Rightarrow> jsstring list" where
  "stable_sort cmp vs = foldr (insert_sorted cmp) vs []"

definition sortDistinct :: "(jsstring \<Rightarrow> jsstring \<Rightarrow> int) \<Rightarrow> jsstring list \<Rightarrow> jsstring list" where
  "sortDistinct cmp values = stable_sort cmp (dedupe_first [] values)"

text \<open>
  \<open>GlobResult\<close> and \<open>GrepResult\<close> have the same two fields, \<open>matches\<close> and
  \<open>truncated\<close>; they are instances of one record. The executor of the Glob tool. The file system and the glob matcher of the runtime
  are parameters: \<open>lstat\<close> tells what a path is, \<open>scanSync pattern dir\<close> is the sequence
  that \<open>new Glob(pattern).scanSync({cwd: dir})\<close> yields. \<open>glob_accept\<close> is the body of the
  loop up to the \<open>push\<close>: a match that the path validator rejects or that lies in an
  ignored directory is passed over. \<open>glob_loop\<close> is the loop with its \<open>break\<close>.
\<close>

datatype file_kind = Missing | SymbolicLink | Directory | RegularFile | OtherKind

datatype tool_error = InvalidPath path_error | NotADirectory | NoSuchFile

record 'a search_result =
  matches :: "'a list"
  truncated :: bool

type_synonym GlobResult = "jsstring search_result"

definition DEFAULT_MAX_GLOB_RESULTS :: nat where
  "DEFAULT_MAX_GLOB_RESULTS = 250"

definition glob_accept :: "jsstring \<Rightarrow> jsstring \<Rightarrow> jsstring \<Rightarrow> jsstring \<Rightarrow> jsstring option" where
  "glob_accept cwd repoRoot baseDir found =
     (let candidate = path_resolve cwd [baseDir, found]
      in case resolveWithinRepo cwd repoRoot candidate of
           Inl e \<Rightarrow> None
         | Inr absolute \<Rightarrow>
             (let relative = toRepoRelative cwd repoRoot absolute
              in if includesIgnoredDirectory relative then None else Some relative))"

fun glob_loop ::
  "(jsstring \<Rightarrow> jsstring option) \<Rightarrow> nat \<Rightarrow> jsstring list \<Rightarrow> jsstring list \<Rightarrow> jsstring list \<times> bool" where
  "glob_loop accept limit [] collected = (collected, False)"
| "glob_loop accept limit (found # rest) collected =
     (case accept found of
        None \<Rightarrow> glob_loop accept limit rest collected
      | Some relative \<Rightarrow>
          if length (collected @ [relative]) \<ge> limit then (collected @ [relative], True)
          else glob_loop accept limit rest (collected @ [relative]))"

definition globTool ::
  "jsstring \<Rightarrow> jsstring \<Rightarrow> (jsstring \<Rightarrow> file_kind) \<Rightarrow> (jsstring \<Rightarrow> jsstring \<Rightarrow> jsstring list)
   \<Rightarrow> (jsstring \<Rightarrow> jsstring \<Rightarrow> int)
   \<Rightarrow> jsstring \<Rightarrow> jsstring option \<Rightarrow> nat option \<Rightarrow> tool_error + GlobResult" where
  "globTool cwd repoRoot lstat scanSync cmp pattern cwdArg maxResults =
     (case (case cwdArg of
              Some dir \<Rightarrow> resolveWithinRepo cwd repoRoot dir
            | None \<Rightarrow> Inr repoRoot) of
        Inl e \<Rightarrow> Inl (InvalidPath e)
      | Inr baseDir \<Rightarrow>
          if lstat baseDir = Missing then Inl NoSuchFile
          else if lstat baseDir = SymbolicLink \<or> lstat baseDir \<noteq> Directory then Inl NotADirectory
          else
            (let limit = (case maxResults of Some n \<Rightarrow> n | None \<Rightarrow> DEFAULT_MAX_GLOB_RESULTS);
                 (collected, wasTruncated) =
                    glob_loop (glob_accept cwd repoRoot baseDir) limit (scanSync pattern baseDir) []
             in Inr \<lparr>matches = sortDistinct cmp collected, truncated = wasTruncated\<rparr>))"

text \<open>
  A comparison to run examples with: code-unit order after folding ASCII capitals to
  small letters. On words of ASCII letters it orders as \<open>localeCompare\<close> with
  \<open>sensitivity: "base"\<close> does.
\<close>

definition fold_case :: "jschar \<Rightarrow> jschar" where
  "fold_case c = (if 0x41 \<le> c \<and> c \<le> 0x5A then c + 0x20 else c)"

fun letters_compare :: "jsstring \<Rightarrow> jsstring \<Rightarrow> int" where
  "letters_compare [] [] = 0"
| "letters_compare [] (y # ys) = -1"
| "letters_compare (x # xs) [] = 1"
| "letters_compare (x # xs) (y # ys) =
     (if fold_case x < fold_case y then -1
      else if fold_case y < fold_case x then 1
      else letters_compare xs ys)"

text \<open>What the comparison must be for a sorted result to mean anything: a total
  preorder. \<open>accepted\<close> is the full sequence of matches the loop would collect without a
  limit, in scan order.\<close>

definition total_preorder :: "(jsstring \<Rightarrow> jsstring \<Rightarrow> int) \<Rightarrow> bool" where
  "total_preorder cmp =
     ((\<forall>a b. cmp a b \<le> 0 \<or> cmp b a \<le> 0)
      \<and> (\<forall>a b c. cmp a b \<le> 0 \<and> cmp b c \<le> 0 \<longrightarrow> cmp a c \<le> 0))"

definition accepted :: "(jsstring \<Rightarrow> jsstring option) \<Rightarrow> jsstring list \<Rightarrow> jsstring list" where
  "accepted accept scan = List.map_filter accept scan"

subsection \<open>Grep\<close>

text \<open>
  The runtime enters Grep through four parameters. A compiled regular expression with
  the global flag is its \<open>exec\<close>: given the string and \<open>lastIndex\<close> it answers the index
  and the text of the next match, after which \<open>lastIndex\<close> is the end of that match, or
  null. \<open>RegExp pattern flags\<close> is the compiled expression, \<open>byteLength\<close> is
  \<open>Buffer.byteLength\<close> for the chosen encoding, \<open>readContent\<close> gives the decoded text of
  a file and \<open>collectFiles\<close> the sorted list of files under the requested paths.
\<close>

type_synonym regexp = "jsstring \<Rightarrow> nat \<Rightarrow> (nat \<times> jsstring) option"

record GrepMatch =
  match_path :: jsstring
  match_line :: nat
  match_column :: nat
  match_text :: jsstring
  match_context :: jsstring
  match_offset :: nat
  match_byteOffset :: nat

type_synonym GrepResult = "GrepMatch search_result"

definition DEFAULT_MAX_GREP_RESULTS :: nat where
  "DEFAULT_MAX_GREP_RESULTS = 200"

definition DEFAULT_CONTEXT_CHARS :: nat where
  "DEFAULT_CONTEXT_CHARS = 200"

abbreviation ELLIPSIS :: jschar where "ELLIPSIS \<equiv> 0x2026"

text \<open>\<open>String.prototype.includes\<close> and \<open>indexOf\<close> with a start position.\<close>

fun includes_str :: "jsstring \<Rightarrow> jsstring \<Rightarrow> bool" where
  "includes_str [] sub = (sub = [])"
| "includes_str (c # cs) sub = (startsWith (c # cs) sub \<or> includes_str cs sub)"

definition indexOf :: "jsstring \<Rightarrow> jschar \<Rightarrow> nat \<Rightarrow> nat option" where
  "indexOf s c start =
     (if c \<in> set (drop start s)
      then Some (start + length (takeWhile (\<lambda>x. x \<noteq> c) (drop start s)))
      else None)"

definition shouldUseFullScan :: "jsstring \<Rightarrow> jsstring option \<Rightarrow> bool" where
  "shouldUseFullScan pattern flags =
     (if (case flags of Some f \<Rightarrow> includes_str f (js ''s'') | None \<Rightarrow> False) then True
      else if includes_str pattern [LF] then True
      else if includes_str pattern (BACKSLASH # js ''n'') \<or> includes_str pattern (BACKSLASH # js ''r'')
      then True
      else False)"

definition buildContextSnippet :: "jsstring \<Rightarrow> nat \<Rightarrow> nat \<Rightarrow> jsstring" where
  "buildContextSnippet ln start len =
     (if length ln \<le> DEFAULT_CONTEXT_CHARS then ln
      else
        (let safeLength = max (int len) 1;
             available = int DEFAULT_CONTEXT_CHARS - safeLength;
             half = available div 2;
             prefixStart = max (int start - half) 0;
             suffixEnd = min (int start + safeLength + half) (int (length ln));
             prefixEllipsis = (if prefixStart > 0 then [ELLIPSIS] else []);
             suffixEllipsis = (if suffixEnd < int (length ln) then [ELLIPSIS] else [])
         in prefixEllipsis @ slice ln prefixStart suffixEnd @ suffixEllipsis))"

text \<open>
  \<open>streamFileLines\<close>. The generator cuts the decoded stream at each newline, whatever
  the chunks it arrives in, strips one carriage return before the newline, and yields
  what is left at the end if it is not empty. \<open>stream_chars\<close> reads the text character
  by character with the line read so far in \<open>buffer\<close>.
\<close>

record LineYield =
  yield_line :: jsstring
  lineEndingChars :: nat
  lineBytes :: nat
  lineEndingBytes :: nat

definition yield_terminated :: "(jsstring \<Rightarrow> nat) \<Rightarrow> jsstring \<Rightarrow> LineYield" where
  "yield_terminated byteLength raw =
     (if endsWith raw [CR]
      then \<lparr>yield_line = slice raw 0 (-1), lineEndingChars = 2,
            lineBytes = byteLength (slice raw 0 (-1)),
            lineEndingBytes = byteLength [LF] + byteLength [CR]\<rparr>
      else \<lparr>yield_line = raw, lineEndingChars = 1, lineBytes = byteLength raw,
            lineEndingBytes = byteLength [LF]\<rparr>)"

fun stream_chars :: "(jsstring \<Rightarrow> nat) \<Rightarrow> jsstring \<Rightarrow> jsstring \<Rightarrow> LineYield list" where
  "stream_chars byteLength buffer [] =
     (if length buffer > 0
      then [\<lparr>yield_line = buffer, lineEndingChars = 0, lineBytes = byteLength buffer,
             lineEndingBytes = 0\<rparr>]
      else [])"
| "stream_chars byteLength buffer (c # cs) =
     (if c = LF then yield_terminated byteLength buffer # stream_chars byteLength [] cs
      else stream_chars byteLength (buffer @ [c]) cs)"

definition streamFileLines :: "(jsstring \<Rightarrow> nat) \<Rightarrow> jsstring \<Rightarrow> LineYield list" where
  "streamFileLines byteLength contents = stream_chars byteLength [] contents"

text \<open>
  \<open>findMatchesStreaming\<close>. \<open>streaming_exec\<close> is the inner \<open>while\<close> on one line; each turn
  pushes a match, so it ends at the limit if not before. \<open>streaming_lines\<close> is the
  \<open>for await\<close> over the lines with the running line number and offsets. Both return
  the flag of the source together with the array \<open>matches\<close> that the source appends to.
\<close>

function streaming_exec ::
  "regexp \<Rightarrow> (jsstring \<Rightarrow> nat) \<Rightarrow> jsstring \<Rightarrow> nat \<Rightarrow> jsstring \<Rightarrow> nat \<Rightarrow> nat \<Rightarrow> nat
   \<Rightarrow> nat \<Rightarrow> GrepMatch list \<Rightarrow> bool \<times> GrepMatch list" where
  "streaming_exec regex byteLength relPath limit ln lineNumber charOffset byteOffset
       lastIndex found =
     (case regex ln lastIndex of
        None \<Rightarrow> (False, found)
      | Some (matchIndex, matchText) \<Rightarrow>
          (let pushed = found @
                 [\<lparr>match_path = relPath, match_line = lineNumber, match_column = matchIndex + 1,
                   match_text = matchText,
                   match_context = buildContextSnippet ln matchIndex (length matchText),
                   match_offset = charOffset + matchIndex,
                   match_byteOffset = byteOffset + byteLength (slice ln 0 (int matchIndex))\<rparr>]
           in if length pushed \<ge> limit then (True, pushed)
              else streaming_exec regex byteLength relPath limit ln lineNumber charOffset
                     byteOffset (matchIndex + length matchText) pushed))"
  by pat_completeness auto
termination
  by (relation "measure (\<lambda>(regex, byteLength, relPath, limit, ln, lineNumber, charOffset,
                            byteOffset, lastIndex, found). limit - length found)")
     auto

fun streaming_lines ::
  "regexp \<Rightarrow> (jsstring \<Rightarrow> nat) \<Rightarrow> jsstring \<Rightarrow> nat \<Rightarrow> LineYield list \<Rightarrow> nat \<Rightarrow> nat \<Rightarrow> nat
   \<Rightarrow> GrepMatch list \<Rightarrow> bool \<times> GrepMatch list" where
  "streaming_lines regex byteLength relPath limit [] lineNumber charOffset byteOffset found =
     (False, found)"
| "streaming_lines regex byteLength relPath limit (y # ys) lineNumber charOffset byteOffset
       found =
     (if length found \<ge> limit then (True, found)
      else
        (case streaming_exec regex byteLength relPath limit (yield_line y) (lineNumber + 1)
                charOffset byteOffset 0 found of
           (hitLimit, pushed) \<Rightarrow>
             if hitLimit then (True, pushed)
             else streaming_lines regex byteLength relPath limit ys (lineNumber + 1)
                    (charOffset + length (yield_line y) + lineEndingChars y)
                    (byteOffset + lineBytes y + lineEndingBytes y) pushed))"

definition findMatchesStreaming ::
  "regexp \<Rightarrow> (jsstring \<Rightarrow> nat) \<Rightarrow> jsstring \<Rightarrow> nat \<Rightarrow> jsstring \<Rightarrow> GrepMatch list
   \<Rightarrow> bool \<times> GrepMatch list" where
  "findMatchesStreaming regex byteLength relPath limit contents found =
     streaming_lines regex byteLength relPath limit (streamFileLines byteLength contents)
       0 0 0 found"

text \<open>
  \<open>findMatchesFullScan\<close>. \<open>buildLineIndex\<close> records the character and byte offset after
  each newline; \<open>findLineStartIndex\<close> is the binary search for the last recorded offset
  not beyond the match, with \<open>low\<close>, \<open>high\<close> and \<open>mid\<close> integers as \<open>high\<close> can fall to
  \<open>-1\<close>; \<open>full_exec\<close> is the \<open>while\<close> over the whole contents.
\<close>

record LineIndex =
  charOffsets :: "nat list"
  byteOffsets :: "nat list"

fun line_index_from :: "(jsstring \<Rightarrow> nat) \<Rightarrow> nat \<Rightarrow> nat \<Rightarrow> jsstring \<Rightarrow> (nat \<times> nat) list" where
  "line_index_from byteLength i byteOffset [] = []"
| "line_index_from byteLength i byteOffset (c # cs) =
     (if c = LF
      then (i + 1, byteOffset + byteLength [c])
             # line_index_from byteLength (i + 1) (byteOffset + byteLength [c]) cs
      else line_index_from byteLength (i + 1) (byteOffset + byteLength [c]) cs)"

definition buildLineIndex :: "(jsstring \<Rightarrow> nat) \<Rightarrow> jsstring \<Rightarrow> LineIndex" where
  "buildLineIndex byteLength contents =
     \<lparr>charOffsets = 0 # map fst (line_index_from byteLength 0 0 contents),
      byteOffsets = 0 # map snd (line_index_from byteLength 0 0 contents)\<rparr>"

definition at_or_zero :: "nat list \<Rightarrow> int \<Rightarrow> nat" where
  "at_or_zero xs i = (if 0 \<le> i \<and> nat i < length xs then xs ! nat i else 0)"

function find_line_loop :: "LineIndex \<Rightarrow> nat \<Rightarrow> int \<Rightarrow> int \<Rightarrow> nat \<times> nat \<times> nat" where
  "find_line_loop lineIndex matchOffset low high =
     (if low \<le> high then
        (let mid = (low + high) div 2;
             offset = at_or_zero (charOffsets lineIndex) mid
         in if offset \<le> matchOffset then
              (if mid = int (length (charOffsets lineIndex)) - 1
                  \<or> (0 \<le> mid + 1 \<and> nat (mid + 1) < length (charOffsets lineIndex)
                      \<and> charOffsets lineIndex ! nat (mid + 1) > matchOffset)
               then (nat (mid + 1), offset, at_or_zero (byteOffsets lineIndex) mid)
               else find_line_loop lineIndex matchOffset (mid + 1) high)
            else find_line_loop lineIndex matchOffset low (mid - 1))
      else (1, 0, 0))"
  by pat_completeness auto
termination
  by (relation "measure (\<lambda>(lineIndex, matchOffset, low, high). nat (high - low + 1))") auto

definition findLineStartIndex :: "LineIndex \<Rightarrow> nat \<Rightarrow> nat \<times> nat \<times> nat" where
  "findLineStartIndex lineIndex matchOffset =
     find_line_loop lineIndex matchOffset 0 (int (length (charOffsets lineIndex)) - 1)"

function full_exec ::
  "regexp \<Rightarrow> (jsstring \<Rightarrow> nat) \<Rightarrow> jsstring \<Rightarrow> nat \<Rightarrow> jsstring \<Rightarrow> LineIndex \<Rightarrow> nat
   \<Rightarrow> GrepMatch list \<Rightarrow> bool \<times> GrepMatch list" where
  "full_exec regex byteLength relPath limit contents lineIndex lastIndex found =
     (case regex contents lastIndex of
        None \<Rightarrow> (False, found)
      | Some (matchOffset, matchText) \<Rightarrow>
          (case findLineStartIndex lineIndex matchOffset of
             (lineNo, startCharOffset, startByteOffset) \<Rightarrow>
               (let lineEndIndex = (case indexOf contents LF matchOffset of
                                      None \<Rightarrow> length contents
                                    | Some i \<Rightarrow> i);
                    wholeLine = slice contents (int startCharOffset) (int lineEndIndex);
                    lineText = (if endsWith wholeLine [CR] then slice wholeLine 0 (-1)
                                else wholeLine);
                    precedingSlice = slice contents (int startCharOffset) (int matchOffset);
                    pushed = found @
                      [\<lparr>match_path = relPath, match_line = lineNo,
                        match_column = matchOffset - startCharOffset + 1,
                        match_text = matchText,
                        match_context = buildContextSnippet lineText
                                          (matchOffset - startCharOffset) (length matchText),
                        match_offset = matchOffset,
                        match_byteOffset = startByteOffset + byteLength precedingSlice\<rparr>]
                in if length pushed \<ge> limit then (True, pushed)
                   else full_exec regex byteLength relPath limit contents lineIndex
                          (matchOffset + length matchText) pushed)))"
  by pat_completeness auto
termination
  by (relation "measure (\<lambda>(regex, byteLength, relPath, limit, contents, lineIndex, lastIndex,
                            found). limit - length found)")
     auto

definition findMatchesFullScan ::
  "regexp \<Rightarrow> (jsstring \<Rightarrow> nat) \<Rightarrow> jsstring \<Rightarrow> nat \<Rightarrow> jsstring \<Rightarrow> GrepMatch list
   \<Rightarrow> bool \<times> GrepMatch list" where
  "findMatchesFullScan regex byteLength relPath limit contents found =
     full_exec regex byteLength relPath limit contents (buildLineIndex byteLength contents)
       0 found"

text \<open>The executor of the Grep tool: the requested paths are resolved, the files are
  collected, and \<open>grep_files\<close> is the loop over the files with its two \<open>break\<close>s;
  \<open>grep_search\<close> is the scan of one file by the chosen strategy.\<close>

datatype path_argument = OnePath jsstring | ManyPaths "jsstring list"

fun resolve_all :: "jsstring \<Rightarrow> jsstring \<Rightarrow> jsstring list \<Rightarrow> path_error + jsstring list" where
  "resolve_all cwd repoRoot [] = Inr []"
| "resolve_all cwd repoRoot (candidate # rest) =
     (case resolveWithinRepo cwd repoRoot candidate of
        Inl e \<Rightarrow> Inl e
      | Inr resolved \<Rightarrow>
          (case resolve_all cwd repoRoot rest of
             Inl e \<Rightarrow> Inl e
           | Inr others \<Rightarrow> Inr (resolved # others)))"

fun grep_files ::
  "(jsstring \<Rightarrow> GrepMatch list \<Rightarrow> bool \<times> GrepMatch list) \<Rightarrow> nat \<Rightarrow> jsstring list
   \<Rightarrow> GrepMatch list \<Rightarrow> GrepMatch list \<times> bool" where
  "grep_files search limit [] found = (found, False)"
| "grep_files search limit (filePath # rest) found =
     (if length found \<ge> limit then (found, True)
      else
        (case search filePath found of
           (hitLimit, pushed) \<Rightarrow>
             if hitLimit then (pushed, True) else grep_files search limit rest pushed))"

definition grep_search ::
  "regexp \<Rightarrow> (jsstring \<Rightarrow> nat) \<Rightarrow> jsstring \<Rightarrow> jsstring \<Rightarrow> (jsstring \<Rightarrow> jsstring) \<Rightarrow> bool
   \<Rightarrow> nat \<Rightarrow> jsstring \<Rightarrow> GrepMatch list \<Rightarrow> bool \<times> GrepMatch list" where
  "grep_search regex byteLength cwd repoRoot readContent useFullScan limit filePath found =
     (if useFullScan
      then findMatchesFullScan regex byteLength (toRepoRelative cwd repoRoot filePath) limit
             (readContent filePath) found
      else findMatchesStreaming regex byteLength (toRepoRelative cwd repoRoot filePath) limit
             (readContent filePath) found)"

definition grepTool ::
  "jsstring \<Rightarrow> jsstring \<Rightarrow> (jsstring list \<Rightarrow> jsstring list) \<Rightarrow> (jsstring \<Rightarrow> jsstring)
   \<Rightarrow> (jsstring \<Rightarrow> jsstring \<Rightarrow> regexp) \<Rightarrow> (jsstring \<Rightarrow> nat)
   \<Rightarrow> jsstring \<Rightarrow> jsstring option \<Rightarrow> path_argument option \<Rightarrow> nat option
   \<Rightarrow> tool_error + GrepResult" where
  "grepTool cwd repoRoot collectFiles readContent RegExp byteLength pattern flags providedPath
       maxResults =
     (let requestedPaths = (case providedPath of
                              Some (ManyPaths ps) \<Rightarrow> ps
                            | Some (OnePath p) \<Rightarrow> [p]
                            | None \<Rightarrow> [DOT])
      in case resolve_all cwd repoRoot requestedPaths of
           Inl e \<Rightarrow> Inl (InvalidPath e)
         | Inr resolvedPaths \<Rightarrow>
             (let filesToSearch = collectFiles resolvedPaths;
                  limit = (case maxResults of Some n \<Rightarrow> n | None \<Rightarrow> DEFAULT_MAX_GREP_RESULTS);
                  baseFlags = (case flags of Some f \<Rightarrow> f | None \<Rightarrow> []);
                  finalFlags = dedupe_first [] (baseFlags @ js ''g'');
                  useFullScan = shouldUseFullScan pattern (Some baseFlags);
                  (found, wasTruncated) =
                     grep_files (grep_search (RegExp pattern finalFlags) byteLength cwd repoRoot
                                   readContent useFullScan limit)
                       limit filesToSearch []
              in Inr \<lparr>matches = found, truncated = wasTruncated\<rparr>))"

text \<open>
  Regular expressions to run examples with. \<open>scan_regexp m\<close> is an expression whose
  match at a position depends on the text from that position on only: \<open>m\<close> answers the
  length of the match at the head of a text, and \<open>exec\<close> takes the first position from
  \<open>lastIndex\<close> on where there is one. \<open>literal w\<close> is the pattern made of the plain
  characters \<open>w\<close>; \<open>char_class P\<close> is a one-character class such as \<open>[^a]\<close>.
  \<open>anchored w\<close> is the pattern \<open>^w\<close> without the \<open>m\<close> flag, which matches at the start
  of the text only.
\<close>

fun find_at :: "(jsstring \<Rightarrow> nat option) \<Rightarrow> nat \<Rightarrow> jsstring \<Rightarrow> (nat \<times> nat) option" where
  "find_at m i [] = (case m [] of Some n \<Rightarrow> Some (i, n) | None \<Rightarrow> None)"
| "find_at m i (c # cs) =
     (case m (c # cs) of Some n \<Rightarrow> Some (i, n) | None \<Rightarrow> find_at m (i + 1) cs)"

definition scan_regexp :: "(jsstring \<Rightarrow> nat option) \<Rightarrow> regexp" where
  "scan_regexp m s lastIndex =
     (if lastIndex > length s then None
      else (case find_at m lastIndex (drop lastIndex s) of
              None \<Rightarrow> None
            | Some (i, n) \<Rightarrow> Some (i, take n (drop i s))))"

definition literal :: "jsstring \<Rightarrow> jsstring \<Rightarrow> nat option" where
  "literal w s = (if startsWith s w then Some (length w) else None)"

definition char_class :: "(jschar \<Rightarrow> bool) \<Rightarrow> jsstring \<Rightarrow> nat option" where
  "char_class P s = (case s of [] \<Rightarrow> None | c # cs \<Rightarrow> if P c then Some 1 else None)"

definition anchored :: "jsstring \<Rightarrow> regexp" where
  "anchored w s lastIndex = (if lastIndex = 0 \<and> startsWith s w then Some (0, w) else None)"

definition projection :: "GrepMatch \<Rightarrow> nat \<times> nat \<times> jsstring" where
  "projection m = (match_line m, match_column m, match_text m)"

text \<open>What Grep promises about the limit: a scan hands back at most \<open>limit\<close> matches
  and raises its flag exactly when it has \<open>limit\<close> of them.\<close>

definition within :: "nat \<Rightarrow> bool \<times> GrepMatch list \<Rightarrow> bool" where
  "within limit r = (case r of (hitLimit, found) \<Rightarrow>
     length found \<le> limit \<and> (hitLimit \<longleftrightarrow> length found = limit))"

text \<open>
  When the two strategies agree. A regular expression is line-local on a text when, at
  every position of every line that the streaming scan reads, running it on the whole
  text finds what running it on the line finds, at the same place in the line, and
  otherwise finds what it finds from the start of the next line on (nothing after the
  last line); and its matches on a line begin at or after \<open>lastIndex\<close> and lie in the
  line. \<open>line_local\<close> walks the lines with the offset \<open>start\<close> of the current one.
  \<open>next_starts\<close> are the offsets at which the lines after the current one begin.
\<close>

fun line_local :: "regexp \<Rightarrow> jsstring \<Rightarrow> LineYield list \<Rightarrow> nat \<Rightarrow> bool" where
  "line_local regex contents [] start = True"
| "line_local regex contents (y # ys) start =
     (list_all
        (\<lambda>q. case regex (yield_line y) q of
               Some (i, t) \<Rightarrow>
                 q \<le> i \<and> i + length t \<le> length (yield_line y)
                 \<and> regex contents (start + q) = Some (start + i, t)
             | None \<Rightarrow>
                 regex contents (start + q)
                   = (if ys = [] then None
                      else regex contents (start + length (yield_line y) + lineEndingChars y)))
        [0 ..< Suc (length (yield_line y))]
      \<and> line_local regex contents ys (start + length (yield_line y) + lineEndingChars y))"

definition line_local_on :: "regexp \<Rightarrow> (jsstring \<Rightarrow> nat) \<Rightarrow> jsstring \<Rightarrow> bool" where
  "line_local_on regex byteLength contents =
     (if streamFileLines byteLength contents = [] then regex contents 0 = None
      else line_local regex contents (streamFileLines byteLength contents) 0)"

fun next_starts :: "nat \<Rightarrow> LineYield list \<Rightarrow> nat list" where
  "next_starts start [] = []"
| "next_starts start (y # ys) =
     (if lineEndingChars y > 0
      then (start + length (yield_line y) + lineEndingChars y)
             # next_starts (start + length (yield_line y) + lineEndingChars y) ys
      else next_starts (start + length (yield_line y)) ys)"

fun only_last_open :: "LineYield list \<Rightarrow> bool" where
  "only_last_open [] = True"
| "only_last_open (y # ys) = ((ys = [] \<or> lineEndingChars y > 0) \<and> only_last_open ys)"

definition same_matches :: "bool \<times> GrepMatch list \<Rightarrow> bool \<times> GrepMatch list \<Rightarrow> bool" where
  "same_matches a b = (fst a = fst b \<and> map projection (snd a) = map projection (snd b))"

text \<open>
  A class of expressions that are line-local on every content that is not empty. A line
  character is one that is neither a newline nor a carriage return, and \<open>line_matcher m\<close>
  says that the matcher \<open>m\<close> looks at the line characters at the head of a text only and
  matches among them: \<open>scan_regexp m\<close> then has no look-behind, no anchor, and no match or
  look-ahead that reaches a line terminator. A literal without line terminators is one.
\<close>

definition line_char :: "jschar \<Rightarrow> bool" where
  "line_char c = (c \<noteq> LF \<and> c \<noteq> CR)"

definition line_matcher :: "(jsstring \<Rightarrow> nat option) \<Rightarrow> bool" where
  "line_matcher m =
     (\<forall>s. m s = m (takeWhile line_char s)
          \<and> (case m s of Some n \<Rightarrow> n \<le> length (takeWhile line_char s) | None \<Rightarrow> True))"

(*THEOREMS*)

declare ulp_exponent.simps [simp del]

section \<open>Properties of the path codec\<close>

lemma slice_1_m1: "length v \<ge> 2 \<Longrightarrow> slice v 1 (-1) = butlast (tl v)"
  by (simp add: slice_def slice_index_def Let_def butlast_conv_take drop_Suc tl_drop
      nat_diff_distrib' min_def drop_take)

lemma strip_wrapped:
  "q = DQUOTE \<or> q = SQUOTE \<Longrightarrow> stripEnclosingQuotes (q # mid @ [q]) = mid"
  by (auto simp: stripEnclosingQuotes_def startsWith_def endsWith_def slice_1_m1 Let_def)

lemma strip_other:
  assumes "\<not> (\<exists>q mid. (q = DQUOTE \<or> q = SQUOTE) \<and> v = q # mid @ [q])"
  shows "stripEnclosingQuotes v = v"
proof (cases "length v \<ge> 2")
  case False
  then show ?thesis by (simp add: stripEnclosingQuotes_def)
next
  case True
  then obtain a w where aw: "v = a # w"
    by (cases v) auto
  with True have "w \<noteq> []" by auto
  with aw obtain mid b where v: "v = a # mid @ [b]"
    by (cases w rule: rev_cases) auto
  from assms v have "\<not> (a = b \<and> (a = DQUOTE \<or> a = SQUOTE))" by auto
  then show ?thesis
    by (auto simp: v stripEnclosingQuotes_def startsWith_def endsWith_def Let_def)
qed

text \<open>
  Claim C9. \<open>stripEnclosingQuotes\<close> removes the first and the last character of a string
  that begins and ends with the same quote character (double or single), whatever lies
  between them, so \<open>"a"b"\<close> becomes \<open>a"b\<close>; every string not of that shape, the
  one-character strings \<open>"\<close> and \<open>'\<close> among them, is returned unchanged.
\<close>

theorem stripEnclosingQuotes_first_last:
  "(q = DQUOTE \<or> q = SQUOTE \<longrightarrow> stripEnclosingQuotes (q # mid @ [q]) = mid)
   \<and> (\<not> (\<exists>q mid. (q = DQUOTE \<or> q = SQUOTE) \<and> v = q # mid @ [q])
        \<longrightarrow> stripEnclosingQuotes v = v)
   \<and> stripEnclosingQuotes (DQUOTE # js ''a'' @ DQUOTE # js ''b'' @ [DQUOTE])
        = js ''a'' @ DQUOTE # js ''b''
   \<and> stripEnclosingQuotes [DQUOTE] = [DQUOTE]
   \<and> stripEnclosingQuotes [SQUOTE] = [SQUOTE]"
proof -
  have ex: "stripEnclosingQuotes (DQUOTE # (js ''a'' @ DQUOTE # js ''b'') @ [DQUOTE])
              = js ''a'' @ DQUOTE # js ''b''"
    by (rule strip_wrapped) simp
  have one: "stripEnclosingQuotes [c] = [c]" for c
    by (simp add: stripEnclosingQuotes_def)
  show ?thesis using strip_wrapped strip_other ex one by simp
qed

theorem stripEnclosingQuotes_first_last_witness:
  "stripEnclosingQuotes (SQUOTE # js ''x y'' @ [SQUOTE]) = js ''x y''
   \<and> stripEnclosingQuotes (DQUOTE # js ''ab'') = DQUOTE # js ''ab''"
proof -
  have "\<not> (\<exists>q mid. (q = DQUOTE \<or> q = SQUOTE) \<and> DQUOTE # js ''ab'' = q # mid @ [q])"
    by (auto simp: js_def Cons_eq_append_conv)
  then show ?thesis
    using stripEnclosingQuotes_first_last [of SQUOTE "js ''x y''" "DQUOTE # js ''ab''"]
    by simp
qed

text \<open>
  Claim C6, as stated: for every \<open>p\<close> that does not start with \<open>a/\<close> or \<open>b/\<close> and is
  not \<open>/dev/null\<close>, \<open>normalizeGitPath p\<close> is \<open>unescapeGitPath (stripEnclosingQuotes p)\<close>.
  It fails at the quoted path \<open>"a/x"\<close>: the raw string starts with a quote, the prefix
  \<open>a/\<close> appears once the quotes are gone, and it is stripped.
\<close>

theorem normalizeGitPath_quoted_prefix_counterexample:
  "\<not> startsWith (DQUOTE # js ''a/x'' @ [DQUOTE]) (js ''a/'')
   \<and> \<not> startsWith (DQUOTE # js ''a/x'' @ [DQUOTE]) (js ''b/'')
   \<and> DQUOTE # js ''a/x'' @ [DQUOTE] \<noteq> DEV_NULL
   \<and> normalizeGitPath (DQUOTE # js ''a/x'' @ [DQUOTE]) = js ''x''
   \<and> unescapeGitPath (stripEnclosingQuotes (DQUOTE # js ''a/x'' @ [DQUOTE])) = js ''a/x''"
  by (simp add: normalizeGitPath_def stripEnclosingQuotes_def js_def startsWith_def
      endsWith_def DEV_NULL_def slice_def slice_index_def slice_from_def)

text \<open>
  Claim C6, amended: the prefix test is made on the unquoted, unescaped path. When
  \<open>unescapeGitPath (stripEnclosingQuotes p)\<close> starts with neither \<open>a/\<close> nor \<open>b/\<close> (as
  \<open>/dev/null\<close> does not), \<open>normalizeGitPath p\<close> is that string; otherwise it is that
  string without its first two characters.
\<close>

theorem normalizeGitPath_unescaped_prefix:
  "normalizeGitPath p =
     (if startsWith (unescapeGitPath (stripEnclosingQuotes p)) (js ''a/'')
         \<or> startsWith (unescapeGitPath (stripEnclosingQuotes p)) (js ''b/'')
      then drop 2 (unescapeGitPath (stripEnclosingQuotes p))
      else unescapeGitPath (stripEnclosingQuotes p))"
  by (auto simp: normalizeGitPath_def Let_def slice_from_def DEV_NULL_def startsWith_def js_def)

theorem normalizeGitPath_unescaped_prefix_witness:
  "normalizeGitPath (js ''src/app.ts'') = js ''src/app.ts''
   \<and> normalizeGitPath (js ''b/src/app.ts'') = js ''src/app.ts''"
  using normalizeGitPath_unescaped_prefix [of "js ''src/app.ts''"]
    normalizeGitPath_unescaped_prefix [of "js ''b/src/app.ts''"]
  by (simp add: stripEnclosingQuotes_def js_def startsWith_def endsWith_def)

subsection \<open>The tokenizer refines its specification\<close>

lemma spec_tokens_from_skip_spaces:
  "spec_tokens_from [] False False (dropWhile (\<lambda>c. c = SPACE) s)
     = spec_tokens_from [] False False s"
  by (induction s) (simp_all add: spec_tokens_from_def)

lemma tokenize_loop_spec:
  "tokenize_loop s tokens current inQuotes escaped
     = tokens @ spec_tokens_from current inQuotes escaped s"
proof (induction s tokens current inQuotes escaped rule: tokenize_loop.induct)
  case (1 tokens current inQuotes escaped)
  then show ?case by (simp add: spec_tokens_from_def push_current_def)
next
  case (2 char rest tokens current inQuotes escaped)
  show ?case
  proof (cases "\<not> escaped \<and> char \<noteq> BACKSLASH \<and> char \<noteq> DQUOTE \<and> char = SPACE \<and> \<not> inQuotes")
    case True
    with 2 have "tokenize_loop (char # rest) tokens current inQuotes escaped
      = push_current tokens current
          @ spec_tokens_from [] False False (dropWhile (\<lambda>c. c = SPACE) rest)"
      by simp
    also have "\<dots> = push_current tokens current @ spec_tokens_from [] False False rest"
      by (simp only: spec_tokens_from_skip_spaces)
    also have "\<dots> = tokens @ spec_tokens_from current inQuotes escaped (char # rest)"
      using True by (simp add: spec_tokens_from_def push_current_def)
    finally show ?thesis .
  next
    case False
    with 2 show ?thesis
      by (auto simp: spec_tokens_from_def)
  qed
qed

lemma tokenize_is_spec: "tokenizeDiffGitPaths s = spec_tokens s"
  by (simp add: tokenizeDiffGitPaths_def spec_tokens_def tokenize_loop_spec)

lemma length_separators [simp]: "length (separators q e s) = length s"
  by (induction s arbitrary: q e) auto

lemma concat_pieces:
  "length ms = length s \<Longrightarrow>
   concat (pieces cur (zip s ms)) = cur @ map fst (filter (\<lambda>(c, sep). \<not> sep) (zip s ms))"
  by (induction s arbitrary: cur ms) (auto simp: length_Suc_conv)

lemma concat_filter_nonempty: "concat (filter (\<lambda>t. t \<noteq> []) xs) = concat xs"
  by (induction xs) auto

lemma concat_spec_tokens: "concat (spec_tokens s) = unsplit_chars s"
  by (simp add: spec_tokens_def spec_tokens_from_def unsplit_chars_def
      concat_filter_nonempty concat_pieces)

lemma spec_tokens_nonempty: "t \<in> set (spec_tokens s) \<Longrightarrow> t \<noteq> []"
  by (simp add: spec_tokens_def spec_tokens_from_def)

lemmas tok_eval = splitDiffGitHeaderPaths_def tokenizeDiffGitPaths_def push_current_def
  isValidOld_def isValidNew_def stripEnclosingQuotes_def startsWith_def endsWith_def
  DEV_NULL_def js_def slice_def slice_index_def

text \<open>
  Claim C5. \<open>splitDiffGitHeaderPaths\<close> tokenizes as the specification says: the tokens
  are the non-empty pieces between the spaces that are neither escaped by a backslash
  nor inside double quotes; put end to end they are the input without those spaces, so
  each token is returned verbatim, escapes and quotes included. The result is the pair of
  tokens when there are exactly two, the first of which, without its enclosing quotes, is
  \<open>/dev/null\<close> or starts with \<open>a/\<close>, and the second \<open>/dev/null\<close> or starts with
  \<open>b/\<close>; otherwise it is null. A header with escaped spaces yields its two tokens.
\<close>

theorem splitDiffGitHeaderPaths_tokens:
  "tokenizeDiffGitPaths r = spec_tokens r
   \<and> concat (tokenizeDiffGitPaths r) = unsplit_chars r
   \<and> splitDiffGitHeaderPaths r =
       (case spec_tokens r of
          [rawOld, rawNew] \<Rightarrow>
            if (stripEnclosingQuotes rawOld = DEV_NULL
                  \<or> startsWith (stripEnclosingQuotes rawOld) (js ''a/''))
               \<and> (stripEnclosingQuotes rawNew = DEV_NULL
                  \<or> startsWith (stripEnclosingQuotes rawNew) (js ''b/''))
            then Some (rawOld, rawNew) else None
        | _ \<Rightarrow> None)
   \<and> splitDiffGitHeaderPaths
        (js ''a/docs/file'' @ BACKSLASH # js '' with'' @ BACKSLASH # js '' spaces.md''
           @ js '' b/docs/file'' @ BACKSLASH # js '' with'' @ BACKSLASH # js '' spaces.md'')
       = Some (js ''a/docs/file'' @ BACKSLASH # js '' with'' @ BACKSLASH # js '' spaces.md'',
               js ''b/docs/file'' @ BACKSLASH # js '' with'' @ BACKSLASH # js '' spaces.md'')"
proof -
  have split: "splitDiffGitHeaderPaths r =
       (case spec_tokens r of
          [rawOld, rawNew] \<Rightarrow>
            if (stripEnclosingQuotes rawOld = DEV_NULL
                  \<or> startsWith (stripEnclosingQuotes rawOld) (js ''a/''))
               \<and> (stripEnclosingQuotes rawNew = DEV_NULL
                  \<or> startsWith (stripEnclosingQuotes rawNew) (js ''b/''))
            then Some (rawOld, rawNew) else None
        | _ \<Rightarrow> None)"
  proof (cases "r = []")
    case True
    then show ?thesis
      by (simp add: splitDiffGitHeaderPaths_def spec_tokens_def spec_tokens_from_def)
  next
    case False
    then show ?thesis
      by (auto simp: splitDiffGitHeaderPaths_def tokenize_is_spec isValidOld_def isValidNew_def
          split: list.splits)
  qed
  have ex: "splitDiffGitHeaderPaths
        (js ''a/docs/file'' @ BACKSLASH # js '' with'' @ BACKSLASH # js '' spaces.md''
           @ js '' b/docs/file'' @ BACKSLASH # js '' with'' @ BACKSLASH # js '' spaces.md'')
       = Some (js ''a/docs/file'' @ BACKSLASH # js '' with'' @ BACKSLASH # js '' spaces.md'',
               js ''b/docs/file'' @ BACKSLASH # js '' with'' @ BACKSLASH # js '' spaces.md'')"
    by (simp add: tok_eval)
  show ?thesis
    using split ex by (simp add: tokenize_is_spec concat_spec_tokens)
qed

theorem splitDiffGitHeaderPaths_tokens_witness:
  "splitDiffGitHeaderPaths
     (DQUOTE # js ''a/my file'' @ DQUOTE # js ''   '' @ DQUOTE # js ''b/my file'' @ [DQUOTE])
     = Some (DQUOTE # js ''a/my file'' @ [DQUOTE], DQUOTE # js ''b/my file'' @ [DQUOTE])
   \<and> splitDiffGitHeaderPaths (js ''invalid header'') = None
   \<and> splitDiffGitHeaderPaths (js ''a/x b/y c/z'') = None
   \<and> spec_tokens (js ''a/x b/y c/z'') = [js ''a/x'', js ''b/y'', js ''c/z'']"
  using splitDiffGitHeaderPaths_tokens
     [of "DQUOTE # js ''a/my file'' @ DQUOTE # js ''   '' @ DQUOTE # js ''b/my file'' @ [DQUOTE]"]
    splitDiffGitHeaderPaths_tokens [of "js ''invalid header''"]
    splitDiffGitHeaderPaths_tokens [of "js ''a/x b/y c/z''"]
  by (simp add: spec_tokens_def spec_tokens_from_def stripEnclosingQuotes_def startsWith_def endsWith_def
  DEV_NULL_def js_def slice_def slice_index_def)

section \<open>Properties of the diff parser\<close>

subsection \<open>Hunk numbering is an invariant of the loop\<close>











lemma list_all_update:
  "list_all P xs \<Longrightarrow> (j < length xs \<Longrightarrow> P v) \<Longrightarrow> list_all P (xs[j := v])"
proof (cases "j < length xs")
  case True
  assume "list_all P xs" "j < length xs \<Longrightarrow> P v"
  with True show ?thesis
    by (auto simp: list_all_iff dest: set_update_subset_insert [THEN subsetD])
next
  case False
  assume "list_all P xs"
  with False show ?thesis by (simp add: list_update_beyond)
qed













subsection \<open>Counting in doubles\<close>





subsection \<open>The lines that a hunk records\<close>






lemmas parse_eval = parseUnifiedDiff_def parse_lines_def initial_state_def step_def
  file_line_def hunk_line_def new_file_def new_hunk_def update_hunk_def push_line_def
  mark_last_line_def match_hunk_header_def strip_prefix_def digits_then_def
  optional_length_def is_digit_def is_line_terminator_def Number_def decimal_def to_double_def
  plus_one_def trim_def
  is_js_whitespace_def after_def DIFF_GIT_PREFIX_def NO_NEWLINE_MARKER_def orEmptyMode_def
  orEmptyRename_def splitDiffGitHeaderPaths_def tokenizeDiffGitPaths_def push_current_def
  isValidOld_def isValidNew_def stripEnclosingQuotes_def startsWith_def endsWith_def
  DEV_NULL_def js_def slice_def slice_index_def slice_from_def normalizeGitPath_def




subsection \<open>A malformed header skips its section\<close>

lemma step_malformed: "malformed_header h \<Longrightarrow> step s h = reset s"
  by (simp add: malformed_header_def is_header_def step_def reset_def)

lemma step_no_file: "currentFile s = None \<Longrightarrow> \<not> is_header l \<Longrightarrow> step s l = s"
  by (simp add: step_def is_header_def)

lemma foldl_step_no_file:
  "currentFile s = None \<Longrightarrow> list_all (\<lambda>l. \<not> is_header l) body \<Longrightarrow> foldl step s body = s"
  by (induction body) (simp_all add: step_no_file)

lemma step_header_after_reset: "is_header l \<Longrightarrow> step (reset s) l = step s l"
  by (simp add: step_def is_header_def reset_def split: option.splits)

lemma foldl_resume:
  "resumes_at_header rest \<Longrightarrow> files (foldl step (reset s) rest) = files (foldl step s rest)"
proof (cases rest)
  case Nil
  then show ?thesis by (simp add: reset_def)
next
  case (Cons l ls)
  assume "resumes_at_header rest"
  with Cons show ?thesis
    by (simp add: resumes_at_header_def step_header_after_reset)
qed

lemma skip_section:
  assumes "malformed_header h" and "list_all (\<lambda>l. \<not> is_header l) body"
  shows "foldl step s (h # body) = reset s"
  using assms by (simp add: step_malformed foldl_step_no_file reset_def)

lemma length_files_step:
  "length (files (step s l))
     = length (files s) + (if is_header l \<and> \<not> malformed_header l then 1 else 0)"
  by (auto simp: step_def is_header_def malformed_header_def split: option.splits prod.splits)

lemma length_files_foldl:
  "length (files (foldl step s ls))
     = length (files s) + length (filter (\<lambda>l. is_header l \<and> \<not> malformed_header l) ls)"
  by (induction ls arbitrary: s) (simp_all add: length_files_step)

text \<open>
  Claim C2. \<open>parseUnifiedDiff\<close> is a total function with no failing branch: every
  operation of the source on a malformed line yields a value. It returns one file for
  each well-formed header line. On a malformed header line the files are left as they
  are and the current file and hunk are reset; the lines that follow, up to the next
  line starting with \<open>diff --git \<close>, change nothing, so the result is the one the input
  has without the malformed header and its section.
\<close>

theorem parseUnifiedDiff_skips_malformed_header:
  "length (parseUnifiedDiff diff)
     = length (filter (\<lambda>l. is_header l \<and> \<not> malformed_header l)
                 (split_on LF (replace_crlf diff)))
   \<and> (malformed_header h \<and> list_all (\<lambda>l. \<not> is_header l) body \<longrightarrow>
        foldl step s (h # body) = s\<lparr>currentFile := None, currentHunk := None\<rparr>
        \<and> (resumes_at_header rest \<and> split_on LF (replace_crlf diff) = pre @ h # body @ rest
             \<longrightarrow> parseUnifiedDiff diff = parse_lines (pre @ rest)))"
proof -
  have count: "length (parseUnifiedDiff diff)
     = length (filter (\<lambda>l. is_header l \<and> \<not> malformed_header l)
                 (split_on LF (replace_crlf diff)))"
    by (simp add: parseUnifiedDiff_def parse_lines_def length_files_foldl initial_state_def)
  have skip: "parseUnifiedDiff diff = parse_lines (pre @ rest)"
    if "malformed_header h" "list_all (\<lambda>l. \<not> is_header l) body" "resumes_at_header rest"
      "split_on LF (replace_crlf diff) = pre @ h # body @ rest"
  proof -
    let ?s = "foldl step initial_state pre"
    have "foldl step initial_state (pre @ h # body @ rest)
            = foldl step (foldl step ?s (h # body)) rest"
      by simp
    also have "\<dots> = foldl step (reset ?s) rest"
      using that(1,2) by (simp only: skip_section)
    finally have "files (foldl step initial_state (pre @ h # body @ rest))
            = files (foldl step ?s rest)"
      using that(3) by (simp add: foldl_resume)
    with that(4) show ?thesis
      by (simp add: parseUnifiedDiff_def parse_lines_def)
  qed
  show ?thesis
    using count skip skip_section [of h body s] by (auto simp: reset_def)
qed

theorem parseUnifiedDiff_skips_malformed_header_witness:
  "malformed_header (js ''diff --git broken'')
   \<and> map newPath
       (parseUnifiedDiff (js ''diff --git a/x b/x'' @ LF # js ''diff --git broken'' @ LF #
          js ''+++ b/z'' @ LF # js ''@@ -1 +1 @@'' @ LF # js ''+t'' @ LF # js ''diff --git a/y b/y''))
     = [js ''x'', js ''y'']
   \<and> parseUnifiedDiff (js ''diff --git a/x b/x'' @ LF # js ''diff --git broken'' @ LF #
          js ''+++ b/z'' @ LF # js ''@@ -1 +1 @@'' @ LF # js ''+t'' @ LF # js ''diff --git a/y b/y'')
     = parse_lines [js ''diff --git a/x b/x'', js ''diff --git a/y b/y'']"
proof -
  let ?d = "js ''diff --git a/x b/x'' @ LF # js ''diff --git broken'' @ LF #
          js ''+++ b/z'' @ LF # js ''@@ -1 +1 @@'' @ LF # js ''+t'' @ LF # js ''diff --git a/y b/y''"
  have m: "malformed_header (js ''diff --git broken'')"
    by (simp add: malformed_header_def is_header_def tok_eval DIFF_GIT_PREFIX_def slice_from_def)
  have b: "list_all (\<lambda>l. \<not> is_header l) [js ''+++ b/z'', js ''@@ -1 +1 @@'', js ''+t'']"
    by (simp add: is_header_def DIFF_GIT_PREFIX_def startsWith_def js_def)
  have r: "resumes_at_header [js ''diff --git a/y b/y'']"
    by (simp add: resumes_at_header_def is_header_def DIFF_GIT_PREFIX_def startsWith_def js_def)
  have l: "split_on LF (replace_crlf ?d)
     = [js ''diff --git a/x b/x''] @ js ''diff --git broken''
         # [js ''+++ b/z'', js ''@@ -1 +1 @@'', js ''+t''] @ [js ''diff --git a/y b/y'']"
    by (simp add: js_def)
  have e: "parseUnifiedDiff ?d = parse_lines ([js ''diff --git a/x b/x''] @ [js ''diff --git a/y b/y''])"
    using parseUnifiedDiff_skips_malformed_header
      [of ?d "js ''diff --git broken''" "[js ''+++ b/z'', js ''@@ -1 +1 @@'', js ''+t'']"
          initial_state "[js ''diff --git a/y b/y'']" "[js ''diff --git a/x b/x'']"]
      m b r l by blast
  have p: "map newPath (parse_lines [js ''diff --git a/x b/x'', js ''diff --git a/y b/y''])
             = [js ''x'', js ''y'']"
    by (simp add: parse_eval)
  from m e p show ?thesis by simp
qed

subsection \<open>File flags along the loop\<close>

lemma update_hunk_fields:
  "oldPath (update_hunk j g f) = oldPath f" "newPath (update_hunk j g f) = newPath f"
  "isNewFile (update_hunk j g f) = isNewFile f" "isDeletedFile (update_hunk j g f) = isDeletedFile f"
  "isBinary (update_hunk j g f) = isBinary f"
  "(hunks (update_hunk j g f) = []) = (hunks f = [])"
  by (simp_all add: update_hunk_def)

lemma file_line_cases:
  assumes "startsWith line (js ''index '') \<Longrightarrow>
             P (f\<lparr>index := Some (trim (after (js ''index '') line))\<rparr>, c, a, b)"
    and "startsWith line (js ''new file mode '') \<Longrightarrow>
           P (f\<lparr>isNewFile := True,
                modeChange := Some ((orEmptyMode (modeChange f))
                  \<lparr>newMode := Some (trim (after (js ''new file mode '') line))\<rparr>)\<rparr>, c, a, b)"
    and "startsWith line (js ''deleted file mode '') \<Longrightarrow>
           P (f\<lparr>isDeletedFile := True,
                modeChange := Some ((orEmptyMode (modeChange f))
                  \<lparr>oldMode := Some (trim (after (js ''deleted file mode '') line))\<rparr>)\<rparr>, c, a, b)"
    and "startsWith line (js ''old mode '') \<Longrightarrow>
           P (f\<lparr>modeChange := Some ((orEmptyMode (modeChange f))
                  \<lparr>oldMode := Some (trim (after (js ''old mode '') line))\<rparr>)\<rparr>, c, a, b)"
    and "startsWith line (js ''new mode '') \<Longrightarrow>
           P (f\<lparr>modeChange := Some ((orEmptyMode (modeChange f))
                  \<lparr>newMode := Some (trim (after (js ''new mode '') line))\<rparr>)\<rparr>, c, a, b)"
    and "startsWith line (js ''rename from '') \<Longrightarrow>
           P (f\<lparr>rename := Some ((orEmptyRename (rename f))
                  \<lparr>rename_from := Some (normalizeGitPath (after (js ''rename from '') line)),
                    rawFrom := Some (after (js ''rename from '') line)\<rparr>),
                oldPath := normalizeGitPath (after (js ''rename from '') line)\<rparr>, c, a, b)"
    and "startsWith line (js ''rename to '') \<Longrightarrow>
           P (f\<lparr>rename := Some ((orEmptyRename (rename f))
                  \<lparr>rename_to := Some (normalizeGitPath (after (js ''rename to '') line)),
                    rawTo := Some (after (js ''rename to '') line)\<rparr>),
                newPath := normalizeGitPath (after (js ''rename to '') line)\<rparr>, c, a, b)"
    and "startsWith line (js ''--- '') \<Longrightarrow>
           P (f\<lparr>oldPath := normalizeGitPath (slice_from line 4),
                isNewFile := (if normalizeGitPath (slice_from line 4) = DEV_NULL then True
                              else isNewFile f)\<rparr>, c, a, b)"
    and "startsWith line (js ''+++ '') \<Longrightarrow>
           P (f\<lparr>newPath := normalizeGitPath (slice_from line 4),
                isDeletedFile := (if normalizeGitPath (slice_from line 4) = DEV_NULL then True
                                  else isDeletedFile f)\<rparr>, c, a, b)"
    and "startsWith line (js ''Binary files '') \<Longrightarrow> P (f\<lparr>isBinary := True\<rparr>, None, a, b)"
    and "\<And>os ol ns nl hdg. match_hunk_header line = Some (os, ol, ns, nl, hdg) \<Longrightarrow>
           P (f\<lparr>hunks := hunks f @ [new_hunk line os ol ns nl hdg]\<rparr>,
              Some (length (hunks f)), Number os, Number ns)"
    and "c = None \<Longrightarrow> P (f, None, a, b)"
    and "\<And>j. c = Some j \<Longrightarrow> P (hunk_line (f, j, a, b) line)"
  shows "P (file_line (f, c, a, b) line)"
  unfolding file_line_def Let_def prod.case
  using assms by (simp split: option.split prod.split)

lemma hunk_line_fields:
  "oldPath (fst (hunk_line (f, j, a, b) line)) = oldPath f"
  "newPath (fst (hunk_line (f, j, a, b) line)) = newPath f"
  "isNewFile (fst (hunk_line (f, j, a, b) line)) = isNewFile f"
  "isDeletedFile (fst (hunk_line (f, j, a, b) line)) = isDeletedFile f"
  "isBinary (fst (hunk_line (f, j, a, b) line)) = isBinary f"
  "(hunks (fst (hunk_line (f, j, a, b) line)) = []) = (hunks f = [])"
  by (cases line; simp add: hunk_line_def update_hunk_fields)+

lemma file_line_devnull:
  assumes "devnull_flagged f" and "names_no_devnull line"
  shows "devnull_flagged (fst (file_line (f, c, a, b) line))"
proof (rule file_line_cases [where P = "\<lambda>st. devnull_flagged (fst st)"])
  fix j show "devnull_flagged (fst (hunk_line (f, j, a, b) line))"
    using assms(1) by (simp add: devnull_flagged_def hunk_line_fields)
qed (use assms in \<open>simp_all add: devnull_flagged_def names_no_devnull_def\<close>)

lemma file_line_binary_hunks:
  "(isBinary (fst (file_line (f, c, a, b) line))
       \<longrightarrow> isBinary f \<or> startsWith line (js ''Binary files ''))
   \<and> (hunks (fst (file_line (f, c, a, b) line)) \<noteq> []
       \<longrightarrow> hunks f \<noteq> [] \<or> match_hunk_header line \<noteq> None)"
proof (rule file_line_cases [where P = "\<lambda>st. (isBinary (fst st)
       \<longrightarrow> isBinary f \<or> startsWith line (js ''Binary files ''))
   \<and> (hunks (fst st) \<noteq> [] \<longrightarrow> hunks f \<noteq> [] \<or> match_hunk_header line \<noteq> None)"])
  fix j show "(isBinary (fst (hunk_line (f, j, a, b) line))
       \<longrightarrow> isBinary f \<or> startsWith line (js ''Binary files ''))
   \<and> (hunks (fst (hunk_line (f, j, a, b) line)) \<noteq> []
       \<longrightarrow> hunks f \<noteq> [] \<or> match_hunk_header line \<noteq> None)"
    by (simp add: hunk_line_fields)
qed simp_all

lemma new_file_devnull:
  "normalizeGitPath rawOld \<noteq> DEV_NULL \<Longrightarrow> normalizeGitPath rawNew \<noteq> DEV_NULL
   \<Longrightarrow> devnull_flagged (new_file rawOld rawNew)"
  by (simp add: devnull_flagged_def new_file_def)

lemma step_devnull:
  assumes all: "list_all devnull_flagged (files s)" and ok: "names_no_devnull l"
  shows "list_all devnull_flagged (files (step s l))"
proof (cases "is_header l")
  case True
  show ?thesis
  proof (cases "splitDiffGitHeaderPaths (slice_from l (length DIFF_GIT_PREFIX))")
    case None
    with True all show ?thesis by (simp add: step_def is_header_def)
  next
    case (Some p)
    obtain rawOld rawNew where p: "p = (rawOld, rawNew)" by (cases p)
    from ok True Some p have "devnull_flagged (new_file rawOld rawNew)"
      by (simp add: names_no_devnull_def new_file_devnull)
    with True Some p all show ?thesis by (simp add: step_def is_header_def)
  qed
next
  case False
  show ?thesis
  proof (cases "currentFile s")
    case None
    with False all show ?thesis by (simp add: step_def is_header_def)
  next
    case (Some i)
    obtain f h a b
      where r: "file_line (files s ! i, currentHunk s, oldLine s, newLine s) l = (f, h, a, b)"
      by (cases "file_line (files s ! i, currentHunk s, oldLine s, newLine s) l") auto
    have "devnull_flagged f" if "i < length (files s)"
    proof -
      from that all have "devnull_flagged (files s ! i)" by (simp add: list_all_length)
      from file_line_devnull [OF this ok, of "currentHunk s" "oldLine s" "newLine s"] r
      show ?thesis by simp
    qed
    with all have "list_all devnull_flagged ((files s)[i := f])"
      by (rule list_all_update)
    with False Some r show ?thesis by (simp add: step_def is_header_def)
  qed
qed

lemma foldl_step_devnull:
  "list_all devnull_flagged (files s) \<Longrightarrow> list_all names_no_devnull ls
   \<Longrightarrow> list_all devnull_flagged (files (foldl step s ls))"
  by (induction ls arbitrary: s) (simp_all add: step_devnull)

lemma binary_inv_all:
  assumes "binary_inv s sawBinary sawHunk"
  shows "list_all binary_without_hunks (files s)"
  unfolding list_all_length
proof (intro allI impI)
  fix k assume "k < length (files s)"
  with assms show "binary_without_hunks (files s ! k)"
    by (cases "currentFile s = Some k") (auto simp: binary_inv_def binary_without_hunks_def)
qed

lemma step_header_binary:
  assumes inv: "binary_inv s sawBinary sawHunk" and hd: "is_header l"
  shows "binary_inv (step s l) False False"
proof (cases "splitDiffGitHeaderPaths (slice_from l (length DIFF_GIT_PREFIX))")
  case None
  with hd binary_inv_all [OF inv] show ?thesis
    by (simp add: step_def is_header_def binary_inv_def list_all_length)
next
  case (Some p)
  obtain rawOld rawNew where p: "p = (rawOld, rawNew)" by (cases p)
  from hd Some p binary_inv_all [OF inv] show ?thesis
    by (auto simp: step_def is_header_def binary_inv_def list_all_length nth_append new_file_def
        less_Suc_eq)
qed

lemma step_file_binary:
  assumes inv: "binary_inv s sawBinary sawHunk" and nh: "\<not> is_header l"
    and b: "b' = (sawBinary \<or> startsWith l (js ''Binary files ''))"
    and h: "h' = (sawHunk \<or> match_hunk_header l \<noteq> None)"
    and apart: "\<not> (b' \<and> h')"
  shows "binary_inv (step s l) b' h'"
proof (cases "currentFile s")
  case None
  with nh have "step s l = s" by (simp add: step_def is_header_def)
  with inv None apart show ?thesis by (simp add: binary_inv_def)
next
  case (Some i)
  obtain f c x y
    where r: "file_line (files s ! i, currentHunk s, oldLine s, newLine s) l = (f, c, x, y)"
    by (cases "file_line (files s ! i, currentHunk s, oldLine s, newLine s) l") auto
  have st: "step s l = s\<lparr>files := (files s)[i := f], currentHunk := c, oldLine := x, newLine := y\<rparr>"
    using nh Some r by (simp add: step_def is_header_def)
  from file_line_binary_hunks [of "files s ! i" "currentHunk s" "oldLine s" "newLine s" l] r
  have f: "isBinary f \<longrightarrow> isBinary (files s ! i) \<or> startsWith l (js ''Binary files '')"
    "hunks f \<noteq> [] \<longrightarrow> hunks (files s ! i) \<noteq> [] \<or> match_hunk_header l \<noteq> None"
    by simp_all
  show ?thesis
    unfolding st binary_inv_def
  proof (intro conjI allI impI)
    show "\<not> (b' \<and> h')" by (rule apart)
  next
    fix k
    assume "k < length (files (s\<lparr>files := (files s)[i := f], currentHunk := c,
                                  oldLine := x, newLine := y\<rparr>))"
    then have k: "k < length (files s)" by simp
    show "if currentFile (s\<lparr>files := (files s)[i := f], currentHunk := c,
                             oldLine := x, newLine := y\<rparr>) = Some k
          then (isBinary (files (s\<lparr>files := (files s)[i := f], currentHunk := c,
                                    oldLine := x, newLine := y\<rparr>) ! k) \<longrightarrow> b')
             \<and> (hunks (files (s\<lparr>files := (files s)[i := f], currentHunk := c,
                                   oldLine := x, newLine := y\<rparr>) ! k) \<noteq> [] \<longrightarrow> h')
          else binary_without_hunks (files (s\<lparr>files := (files s)[i := f], currentHunk := c,
                                              oldLine := x, newLine := y\<rparr>) ! k)"
    proof (cases "k = i")
      case True
      from inv Some k True have "isBinary (files s ! i) \<longrightarrow> sawBinary"
        "hunks (files s ! i) \<noteq> [] \<longrightarrow> sawHunk"
        by (auto simp: binary_inv_def)
      with f b h True k Some show ?thesis by auto
    next
      case False
      with inv Some k show ?thesis by (auto simp: binary_inv_def)
    qed
  qed
qed

lemma foldl_step_binary:
  "binary_inv s sawBinary sawHunk \<Longrightarrow> binary_hunk_apart sawBinary sawHunk ls
   \<Longrightarrow> list_all binary_without_hunks (files (foldl step s ls))"
proof (induction ls arbitrary: s sawBinary sawHunk)
  case Nil
  then show ?case by (simp add: binary_inv_all)
next
  case (Cons l ls)
  show ?case
  proof (cases "is_header l")
    case True
    from Cons.prems True have "binary_hunk_apart False False ls" by simp
    from Cons.IH [OF step_header_binary [OF Cons.prems(1) True] this] show ?thesis by simp
  next
    case False
    let ?b = "sawBinary \<or> startsWith l (js ''Binary files '')"
    let ?h = "sawHunk \<or> match_hunk_header l \<noteq> None"
    have "binary_hunk_apart sawBinary sawHunk (l # ls)
            = (\<not> (?b \<and> ?h) \<and> binary_hunk_apart ?b ?h ls)"
      by (simp only: binary_hunk_apart.simps False if_False Let_def)
    with Cons.prems(2) have a: "\<not> (?b \<and> ?h)" and rest: "binary_hunk_apart ?b ?h ls"
      by blast+
    from Cons.IH [OF step_file_binary [OF Cons.prems(1) False refl refl a] rest]
    show ?thesis by simp
  qed
qed

text \<open>
  Claim C4, as stated: in every file of the output, \<open>/dev/null\<close> as \<open>oldPath\<close> implies
  \<open>isNewFile\<close>, \<open>/dev/null\<close> as \<open>newPath\<close> implies \<open>isDeletedFile\<close>, and \<open>isBinary\<close> implies
  no hunks. It fails: a \<open>Binary files\<close> line sets the flag and clears the current hunk
  but a hunk header after it still opens a hunk; and a header line whose old token is
  \<open>/dev/null\<close> sets \<open>oldPath\<close> with \<open>isNewFile\<close> false.
\<close>

theorem parseUnifiedDiff_file_flags_counterexample:
  "map (\<lambda>f. (isBinary f, length (hunks f)))
     (parseUnifiedDiff (js ''diff --git a/x b/x'' @ LF # js ''Binary files a/x and b/x differ''
                          @ LF # js ''@@ -1 +1 @@''))
     = [(True, 1)]
   \<and> map (\<lambda>f. (oldPath f = DEV_NULL, isNewFile f))
       (parseUnifiedDiff (js ''diff --git /dev/null b/x''))
     = [(True, False)]"
  by (simp add: parse_eval)

text \<open>
  Claim C4, amended. The flags are set by the \<open>---\<close> and \<open>+++\<close> lines and by the
  \<open>Binary files\<close> line only. For an input none of whose header, \<open>rename from\<close> and
  \<open>rename to\<close> lines names a path that normalizes to \<open>/dev/null\<close>, every file of the
  output with \<open>oldPath\<close> \<open>/dev/null\<close> has \<open>isNewFile\<close> and every file with \<open>newPath\<close>
  \<open>/dev/null\<close> has \<open>isDeletedFile\<close>. For an input no section of which holds both a
  \<open>Binary files\<close> line and a hunk header, every binary file of the output has no hunks.
\<close>

theorem parseUnifiedDiff_file_flags:
  "(list_all names_no_devnull (split_on LF (replace_crlf diff)) \<longrightarrow>
      (\<forall>f \<in> set (parseUnifiedDiff diff).
         (oldPath f = DEV_NULL \<longrightarrow> isNewFile f) \<and> (newPath f = DEV_NULL \<longrightarrow> isDeletedFile f)))
   \<and> (binary_hunk_apart False False (split_on LF (replace_crlf diff)) \<longrightarrow>
      (\<forall>f \<in> set (parseUnifiedDiff diff). isBinary f \<longrightarrow> hunks f = []))"
proof -
  have d: "list_all devnull_flagged (files initial_state)"
    by (simp add: initial_state_def)
  have b: "binary_inv initial_state False False"
    by (simp add: initial_state_def binary_inv_def)
  show ?thesis
    using foldl_step_devnull [OF d, of "split_on LF (replace_crlf diff)"]
      foldl_step_binary [OF b, of "split_on LF (replace_crlf diff)"]
    by (simp add: parseUnifiedDiff_def parse_lines_def list_all_iff devnull_flagged_def
        binary_without_hunks_def)
qed

theorem parseUnifiedDiff_file_flags_witness:
  "list_all names_no_devnull
     [js ''diff --git a/x b/x'', js ''--- /dev/null'', js ''+++ b/x'', js ''@@ -0,0 +1 @@'',
      js ''+t'', js ''diff --git a/p b/p'', js ''Binary files a/p and b/p differ'']
   \<and> binary_hunk_apart False False
     [js ''diff --git a/x b/x'', js ''--- /dev/null'', js ''+++ b/x'', js ''@@ -0,0 +1 @@'',
      js ''+t'', js ''diff --git a/p b/p'', js ''Binary files a/p and b/p differ'']
   \<and> map (\<lambda>f. (oldPath f = DEV_NULL, isNewFile f, isBinary f, length (hunks f)))
       (parseUnifiedDiff (js ''diff --git a/x b/x'' @ LF # js ''--- /dev/null'' @ LF # js ''+++ b/x''
          @ LF # js ''@@ -0,0 +1 @@'' @ LF # js ''+t'' @ LF # js ''diff --git a/p b/p''
          @ LF # js ''Binary files a/p and b/p differ''))
     = [(True, True, False, 1), (False, False, True, 0)]
   \<and> list_all (\<lambda>f. devnull_flagged f \<and> binary_without_hunks f)
       (parseUnifiedDiff (js ''diff --git a/x b/x'' @ LF # js ''--- /dev/null'' @ LF # js ''+++ b/x''
          @ LF # js ''@@ -0,0 +1 @@'' @ LF # js ''+t'' @ LF # js ''diff --git a/p b/p''
          @ LF # js ''Binary files a/p and b/p differ''))"
proof -
  let ?d = "js ''diff --git a/x b/x'' @ LF # js ''--- /dev/null'' @ LF # js ''+++ b/x''
          @ LF # js ''@@ -0,0 +1 @@'' @ LF # js ''+t'' @ LF # js ''diff --git a/p b/p''
          @ LF # js ''Binary files a/p and b/p differ''"
  let ?ls = "[js ''diff --git a/x b/x'', js ''--- /dev/null'', js ''+++ b/x'', js ''@@ -0,0 +1 @@'',
      js ''+t'', js ''diff --git a/p b/p'', js ''Binary files a/p and b/p differ'']"
  have l: "split_on LF (replace_crlf ?d) = ?ls"
    by (simp add: js_def)
  have n: "list_all names_no_devnull ?ls"
    by (simp add: names_no_devnull_def is_header_def after_def tok_eval normalizeGitPath_def
        DIFF_GIT_PREFIX_def slice_from_def)
  have a: "binary_hunk_apart False False ?ls"
    by (simp add: is_header_def DIFF_GIT_PREFIX_def startsWith_def js_def match_hunk_header_def
        strip_prefix_def digits_then_def optional_length_def is_digit_def is_line_terminator_def)
  have run: "map (\<lambda>f. (oldPath f = DEV_NULL, isNewFile f, isBinary f, length (hunks f)))
       (parseUnifiedDiff ?d) = [(True, True, False, 1), (False, False, True, 0)]"
    by (simp add: parse_eval)
  have ok: "list_all (\<lambda>f. devnull_flagged f \<and> binary_without_hunks f) (parseUnifiedDiff ?d)"
    using parseUnifiedDiff_file_flags [of ?d] n a
    by (simp only: l list_all_iff devnull_flagged_def binary_without_hunks_def) blast
  from n a run ok show ?thesis by blast
qed

section \<open>Properties of the sandbox resolver\<close>

lemma split_on_nonempty: "split_on c xs \<noteq> []"
  by (induction xs) (auto split: list.splits)

lemma split_on_free: "s \<in> set (split_on c xs) \<Longrightarrow> c \<notin> set s"
proof (induction xs arbitrary: s)
  case Nil
  then show ?case by simp
next
  case (Cons x xs)
  show ?case
  proof (cases "x = c")
    case True
    with Cons show ?thesis by auto
  next
    case False
    obtain l ls where l: "split_on c xs = l # ls"
      using split_on_nonempty [of c xs] by (cases "split_on c xs") auto
    with Cons False show ?thesis by auto
  qed
qed

lemma split_on_append:
  "c \<notin> set s \<Longrightarrow> split_on c (s @ c # rest) = s # split_on c rest"
  by (induction s) auto

lemma split_on_none: "c \<notin> set s \<Longrightarrow> split_on c s = [s]"
  by (induction s) auto

lemma split_join_slash:
  "\<forall>s \<in> set segs. SLASH \<notin> set s \<Longrightarrow>
   split_on SLASH (join_with SLASH segs @ [SLASH]) = (if segs = [] then [[], []] else segs @ [[]])"
proof (induction segs rule: join_with.induct)
  case (1 sep)
  then show ?case by simp
next
  case (2 sep s)
  then show ?case by (simp add: split_on_append)
next
  case (3 sep s t ss)
  then show ?case by (simp add: split_on_append)
qed

lemma normalizeString_clean_prefix:
  "\<forall>s \<in> set segs. clean s \<Longrightarrow>
   normalizeString a res (segs @ rest) = normalizeString a (res @ segs) rest"
  by (induction segs arbitrary: res) (auto simp: clean_def)

lemma normalizeString_clean:
  "\<forall>s \<in> set res. clean s \<Longrightarrow> \<forall>s \<in> set ss. SLASH \<notin> set s \<Longrightarrow>
   \<forall>s \<in> set (normalizeString False res ss). clean s"
proof (induction ss arbitrary: res)
  case Nil
  then show ?case by simp
next
  case (Cons s ss)
  have b: "\<forall>s \<in> set (butlast res). clean s"
    using Cons.prems(1) by (auto dest: in_set_butlastD)
  have e: "\<forall>x \<in> set (res @ [s]). clean x" if "s \<noteq> []" "s \<noteq> DOT" "s \<noteq> DOTDOT"
    using Cons.prems that by (auto simp: clean_def)
  from Cons.prems(2) have r: "\<forall>s \<in> set ss. SLASH \<notin> set s" by simp
  show ?case
    using Cons.IH [OF Cons.prems(1) r] Cons.IH [OF b r] Cons.IH [OF e r]
    by auto
qed

lemma resolve_segments_clean:
  "isAbsolute cwd \<Longrightarrow> \<forall>s \<in> set (resolve_segments cwd args). clean s"
  unfolding resolve_segments_def
  by (rule normalizeString_clean [where res = "[]", simplified, rule_format, rotated -1, THEN ballI])
     (auto dest: split_on_free simp: list_ex_iff)

lemma resolve_segments_absolute:
  assumes "\<forall>s \<in> set segs. clean s"
  shows "resolve_segments cwd [SLASH # join_with SLASH segs] = segs"
proof -
  have free: "\<forall>s \<in> set segs. SLASH \<notin> set s"
    using assms by (simp add: clean_def)
  have abs: "isAbsolute (SLASH # join_with SLASH segs)"
    by (simp add: isAbsolute_def startsWith_def)
  have "split_on SLASH (resolvedPath [cwd, SLASH # join_with SLASH segs])
          = [] # (if segs = [] then [[], []] else segs @ [[]])"
    using abs split_join_slash [OF free] by simp
  then have "normalizeString False [] (split_on SLASH (resolvedPath [cwd, SLASH # join_with SLASH segs]))
          = segs"
    using normalizeString_clean_prefix [OF assms, of False "[]" "[[]]"]
    by (cases "segs = []") simp_all
  with abs show ?thesis
    by (simp add: resolve_segments_def)
qed

lemma common_length_le: "common_length xs ys \<le> length xs"
  by (induction xs ys rule: common_length.induct) auto

lemma common_length_prefix: "common_length xs ys = length xs \<longleftrightarrow> prefix xs ys"
  by (induction xs ys rule: common_length.induct) auto

lemma join_with_Cons: "join_with c (s # ss) = (if ss = [] then s else s @ c # join_with c ss)"
  by (cases ss) simp_all

lemma startsWith_join_dotdot:
  "k > 0 \<Longrightarrow> startsWith (join_with SLASH (replicate k DOTDOT @ rest)) DOTDOT"
  by (cases k) (auto simp: join_with_Cons startsWith_def DOTDOT_def js_def)

lemma relative_of_resolved:
  assumes "isAbsolute cwd"
  shows "path_relative cwd (path_resolve cwd [repoRoot]) (path_resolve cwd (repoRoot # others))
           = join_with SLASH
               (replicate (length (resolve_segments cwd [repoRoot])
                            - common_length (resolve_segments cwd [repoRoot])
                                (resolve_segments cwd (repoRoot # others))) DOTDOT
                @ drop (common_length (resolve_segments cwd [repoRoot])
                          (resolve_segments cwd (repoRoot # others)))
                    (resolve_segments cwd (repoRoot # others)))"
  using assms resolve_segments_absolute [OF resolve_segments_clean [OF assms]]
  by (simp add: path_relative_def path_resolve_def Let_def)

lemma escapes_when_outside:
  assumes "isAbsolute cwd"
    and "\<not> prefix (resolve_segments cwd [repoRoot]) (resolve_segments cwd (repoRoot # others))"
  shows "startsWith (path_relative cwd (path_resolve cwd [repoRoot])
                       (path_resolve cwd (repoRoot # others))) DOTDOT"
proof -
  from assms(2) common_length_prefix common_length_le
  have "common_length (resolve_segments cwd [repoRoot]) (resolve_segments cwd (repoRoot # others))
          < length (resolve_segments cwd [repoRoot])"
    by (metis le_neq_implies_less)
  then show ?thesis
    by (simp add: relative_of_resolved [OF assms(1)] startsWith_join_dotdot)
qed

text \<open>
  Claim C1. With an absolute working directory, for every root and every candidate
  path: blank input is rejected; a candidate whose resolution does not have the
  resolved root as a leading run of segments, through any number of \<open>..\<close> segments or as
  an absolute path elsewhere, is rejected as an escape, as is every candidate whose
  root-relative path starts with \<open>..\<close> or is absolute; and a path that is returned is the
  resolution of the candidate against the root and lies inside the root.
\<close>

theorem resolveWithinRepo_inside_root:
  assumes "isAbsolute cwd"
  shows "(trim candidate = [] \<longrightarrow> resolveWithinRepo cwd repoRoot candidate = Inl PathEmpty)
    \<and> (trim candidate \<noteq> []
         \<and> \<not> prefix (resolve_segments cwd [repoRoot])
                (resolve_segments cwd [repoRoot, trim candidate])
         \<longrightarrow> resolveWithinRepo cwd repoRoot candidate = Inl PathEscape)
    \<and> (trim candidate \<noteq> []
         \<and> (startsWith (path_relative cwd (path_resolve cwd [repoRoot])
                          (path_resolve cwd [repoRoot, trim candidate])) DOTDOT
             \<or> isAbsolute (path_relative cwd (path_resolve cwd [repoRoot])
                              (path_resolve cwd [repoRoot, trim candidate])))
         \<longrightarrow> resolveWithinRepo cwd repoRoot candidate = Inl PathEscape)
    \<and> (\<forall>absolute. resolveWithinRepo cwd repoRoot candidate = Inr absolute \<longrightarrow>
          absolute = SLASH # join_with SLASH (resolve_segments cwd [repoRoot, trim candidate])
          \<and> prefix (resolve_segments cwd [repoRoot])
               (resolve_segments cwd [repoRoot, trim candidate]))"
proof -
  have blank: "trim candidate = [] \<longrightarrow> resolveWithinRepo cwd repoRoot candidate = Inl PathEmpty"
    by (simp add: resolveWithinRepo_def)
  have rel: "trim candidate \<noteq> []
         \<and> (startsWith (path_relative cwd (path_resolve cwd [repoRoot])
                          (path_resolve cwd [repoRoot, trim candidate])) DOTDOT
             \<or> isAbsolute (path_relative cwd (path_resolve cwd [repoRoot])
                              (path_resolve cwd [repoRoot, trim candidate])))
         \<longrightarrow> resolveWithinRepo cwd repoRoot candidate = Inl PathEscape"
    by (simp add: resolveWithinRepo_def Let_def)
  have out: "trim candidate \<noteq> []
         \<and> \<not> prefix (resolve_segments cwd [repoRoot])
                (resolve_segments cwd [repoRoot, trim candidate])
         \<longrightarrow> resolveWithinRepo cwd repoRoot candidate = Inl PathEscape"
    using escapes_when_outside [OF assms, of repoRoot "[trim candidate]"] rel by blast
  have ret: "absolute = SLASH # join_with SLASH (resolve_segments cwd [repoRoot, trim candidate])
          \<and> prefix (resolve_segments cwd [repoRoot])
               (resolve_segments cwd [repoRoot, trim candidate])"
    if r: "resolveWithinRepo cwd repoRoot candidate = Inr absolute" for absolute
  proof -
    from r blank have ne: "trim candidate \<noteq> []" by auto
    with r out have "prefix (resolve_segments cwd [repoRoot])
               (resolve_segments cwd [repoRoot, trim candidate])" by auto
    moreover from r ne have "absolute = path_resolve cwd [repoRoot, trim candidate]"
      by (simp add: resolveWithinRepo_def Let_def split: if_splits)
    ultimately show ?thesis using assms by (simp add: path_resolve_def)
  qed
  from blank rel out ret show ?thesis by blast
qed

lemmas path_eval = resolveWithinRepo_def path_resolve_def path_relative_def
  resolve_segments_def isAbsolute_def DOT_def DOTDOT_def trim_def is_js_whitespace_def
  startsWith_def js_def

theorem resolveWithinRepo_inside_root_witness:
  "isAbsolute (js ''/home/u'')
   \<and> resolveWithinRepo (js ''/home/u'') (js ''/repo'') (js ''  '') = Inl PathEmpty
   \<and> resolveWithinRepo (js ''/home/u'') (js ''/repo'') (js ''a/../../../README.md'') = Inl PathEscape
   \<and> resolveWithinRepo (js ''/home/u'') (js ''/repo'') (js ''/etc/passwd'') = Inl PathEscape
   \<and> resolveWithinRepo (js ''/home/u'') (js ''/repo'') (js ''src/../lib/./a.ts'')
       = Inr (js ''/repo/lib/a.ts'')
   \<and> prefix (resolve_segments (js ''/home/u'') [js ''/repo''])
       (resolve_segments (js ''/home/u'') [js ''/repo'', js ''src/../lib/./a.ts''])"
proof -
  have c: "isAbsolute (js ''/home/u'')"
    by (simp add: isAbsolute_def startsWith_def js_def)
  have t: "trim (js ''  '') = []" "trim (js ''a/../../../README.md'') \<noteq> []"
    "trim (js ''/etc/passwd'') \<noteq> []" "trim (js ''src/../lib/./a.ts'') = js ''src/../lib/./a.ts''"
    by (simp_all add: trim_def is_js_whitespace_def js_def)
  have o: "\<not> prefix (resolve_segments (js ''/home/u'') [js ''/repo''])
             (resolve_segments (js ''/home/u'') [js ''/repo'', trim (js ''a/../../../README.md'')])"
    "\<not> prefix (resolve_segments (js ''/home/u'') [js ''/repo''])
             (resolve_segments (js ''/home/u'') [js ''/repo'', trim (js ''/etc/passwd'')])"
    by (simp_all add: path_eval)
  have r: "resolveWithinRepo (js ''/home/u'') (js ''/repo'') (js ''src/../lib/./a.ts'')
       = Inr (js ''/repo/lib/a.ts'')"
    by (simp add: path_eval)
  show ?thesis
    using c r t o
      resolveWithinRepo_inside_root [OF c, of "js ''  ''" "js ''/repo''"]
      resolveWithinRepo_inside_root [OF c, of "js ''a/../../../README.md''" "js ''/repo''"]
      resolveWithinRepo_inside_root [OF c, of "js ''/etc/passwd''" "js ''/repo''"]
      resolveWithinRepo_inside_root [OF c, of "js ''src/../lib/./a.ts''" "js ''/repo''"]
    by metis
qed

section \<open>Properties of the content tools\<close>

subsection \<open>Glob\<close>

lemma glob_loop_take:
  "length collected < limit \<Longrightarrow>
   glob_loop accept limit scan collected
     = (if limit \<le> length collected + length (accepted accept scan)
        then (collected @ take (limit - length collected) (accepted accept scan), True)
        else (collected @ accepted accept scan, False))"
proof (induction scan arbitrary: collected)
  case Nil
  then show ?case by (simp add: accepted_def)
next
  case (Cons found rest)
  show ?case
  proof (cases "accept found")
    case None
    with Cons show ?thesis by (simp add: accepted_def)
  next
    case (Some relative)
    show ?thesis
    proof (cases "limit \<le> length (collected @ [relative])")
      case True
      with Cons.prems have "limit - length collected = 1" by simp
      with True Some show ?thesis by (simp add: accepted_def)
    next
      case False
      then have lt: "length (collected @ [relative]) < limit" by simp
      have "limit - length collected = Suc (limit - length (collected @ [relative]))"
        using lt by simp
      with Cons.IH [OF lt] False Some show ?thesis
        by (simp add: accepted_def)
    qed
  qed
qed

lemma set_dedupe_first: "set (dedupe_first seen vs) = set vs - set seen"
  by (induction vs arbitrary: seen) auto

lemma distinct_dedupe_first: "distinct (dedupe_first seen vs)"
  by (induction vs arbitrary: seen) (auto simp: set_dedupe_first)

lemma length_dedupe_first: "length (dedupe_first seen vs) \<le> length vs"
  by (induction vs arbitrary: seen) (auto simp: le_SucI)

lemma set_insert_sorted: "set (insert_sorted cmp a bs) = insert a (set bs)"
  by (induction bs) auto

lemma length_insert_sorted: "length (insert_sorted cmp a bs) = Suc (length bs)"
  by (induction bs) auto

lemma distinct_insert_sorted:
  "distinct (insert_sorted cmp a bs) = (a \<notin> set bs \<and> distinct bs)"
  by (induction bs) (auto simp: set_insert_sorted)

lemma sorted_insert_sorted:
  assumes "total_preorder cmp" and "sorted_wrt (\<lambda>a b. cmp a b \<le> 0) bs"
  shows "sorted_wrt (\<lambda>a b. cmp a b \<le> 0) (insert_sorted cmp a bs)"
  using assms(2)
proof (induction bs)
  case Nil
  then show ?case by simp
next
  case (Cons b bs)
  from assms(1) have tot: "cmp a b \<le> 0 \<or> cmp b a \<le> 0"
    and trans: "\<And>x. cmp a b \<le> 0 \<Longrightarrow> cmp b x \<le> 0 \<Longrightarrow> cmp a x \<le> 0"
    unfolding total_preorder_def by blast+
  show ?case
  proof (cases "cmp a b \<le> 0")
    case True
    with Cons.prems trans show ?thesis by auto
  next
    case False
    with tot have "cmp b a \<le> 0" by simp
    with False Cons show ?thesis by (auto simp: set_insert_sorted)
  qed
qed

lemma stable_sort_props:
  "set (stable_sort cmp vs) = set vs"
  "length (stable_sort cmp vs) = length vs"
  "distinct (stable_sort cmp vs) = distinct vs"
  "total_preorder cmp \<Longrightarrow> sorted_wrt (\<lambda>a b. cmp a b \<le> 0) (stable_sort cmp vs)"
  unfolding stable_sort_def
  by (induction vs)
     (simp_all add: set_insert_sorted length_insert_sorted distinct_insert_sorted
       sorted_insert_sorted)

lemma sortDistinct_props:
  "set (sortDistinct cmp vs) = set vs"
  "distinct (sortDistinct cmp vs)"
  "length (sortDistinct cmp vs) \<le> length vs"
  "total_preorder cmp \<Longrightarrow> sorted_wrt (\<lambda>a b. cmp a b \<le> 0) (sortDistinct cmp vs)"
  by (simp_all add: sortDistinct_def stable_sort_props set_dedupe_first distinct_dedupe_first
      length_dedupe_first)

lemma letters_compare_total: "letters_compare a b \<le> 0 \<or> letters_compare b a \<le> 0"
  by (induction a b rule: letters_compare.induct) auto

lemma letters_compare_trans:
  "letters_compare a b \<le> 0 \<Longrightarrow> letters_compare b c \<le> 0 \<Longrightarrow> letters_compare a c \<le> 0"
proof (induction a arbitrary: b c)
  case Nil
  then show ?case by (cases c) auto
next
  case (Cons x xs)
  from Cons.prems(1) obtain y ys where b: "b = y # ys" by (cases b) auto
  from Cons.prems(2) b obtain z zs where c: "c = z # zs" by (cases c) auto
  from Cons.prems b c Cons.IH [of ys zs] show ?case
    by (auto split: if_splits)
qed

lemma total_preorder_letters: "total_preorder letters_compare"
  unfolding total_preorder_def
  using letters_compare_total letters_compare_trans by blast

lemma accepted_from_scan:
  "m \<in> set (accepted accept scan) \<Longrightarrow> \<exists>found \<in> set scan. accept found = Some m"
  by (induction scan) (auto simp: accepted_def split: option.splits)

lemma glob_accept_inside:
  "glob_accept cwd repoRoot baseDir found = Some m \<Longrightarrow>
   \<exists>absolute. resolveWithinRepo cwd repoRoot (path_resolve cwd [baseDir, found]) = Inr absolute
      \<and> m = toRepoRelative cwd repoRoot absolute \<and> \<not> includesIgnoredDirectory m"
  by (auto simp: glob_accept_def Let_def split: sum.splits if_splits)

lemmas glob_eval = globTool_def glob_accept_def toRepoRelative_def includesIgnoredDirectory_def
  splitPathSegments_def IGNORED_DIRECTORY_NAMES_def sortDistinct_def stable_sort_def
  fold_case_def DEFAULT_MAX_GLOB_RESULTS_def path_eval

lemma glob_accept_examples:
  "glob_accept (js ''/repo'') (js ''/repo'') (js ''/repo'') (js ''a'') = Some (js ''a'')"
  "glob_accept (js ''/repo'') (js ''/repo'') (js ''/repo'') (js ''b'') = Some (js ''b'')"
  "glob_accept (js ''/repo'') (js ''/repo'') (js ''/repo'') (js ''A'') = Some (js ''A'')"
  "glob_accept (js ''/repo'') (js ''/repo'') (js ''/repo'') (js ''../x'') = None"
  "glob_accept (js ''/repo'') (js ''/repo'') (js ''/repo'') (js ''.git/q'') = None"
  by (simp_all add: glob_eval)

lemmas glob_run = globTool_def glob_accept_examples sortDistinct_def stable_sort_def
  fold_case_def DEFAULT_MAX_GLOB_RESULTS_def accepted_def

text \<open>
  Claim C8, as stated: Glob sorts before truncating, so that a truncated result is a
  prefix of the full sorted match set whatever the collection order. It fails: the loop
  stops at \<open>maxResults\<close> collected matches and only then sorts. With the scan order
  \<open>b, a\<close> and \<open>maxResults = 1\<close> the result is \<open>b\<close>, which is not a prefix of the full
  sorted set \<open>a, b\<close>; with the scan order \<open>a, b\<close> it is \<open>a\<close>.
\<close>

theorem globTool_truncates_before_sorting_counterexample:
  "globTool (js ''/repo'') (js ''/repo'') (\<lambda>p. Directory) (\<lambda>p d. [js ''b'', js ''a''])
       letters_compare (js ''*'') None (Some 1)
     = Inr \<lparr>matches = [js ''b''], truncated = True\<rparr>
   \<and> globTool (js ''/repo'') (js ''/repo'') (\<lambda>p. Directory) (\<lambda>p d. [js ''b'', js ''a''])
       letters_compare (js ''*'') None (Some 3)
     = Inr \<lparr>matches = [js ''a'', js ''b''], truncated = False\<rparr>
   \<and> globTool (js ''/repo'') (js ''/repo'') (\<lambda>p. Directory) (\<lambda>p d. [js ''a'', js ''b''])
       letters_compare (js ''*'') None (Some 1)
     = Inr \<lparr>matches = [js ''a''], truncated = True\<rparr>
   \<and> \<not> prefix [js ''b''] [js ''a'', js ''b'']"
  by (simp add: glob_run, simp add: js_def fold_case_def)

text \<open>
  Claim C8, amended. With a comparison that is a total preorder and a positive
  \<open>maxResults\<close> (default 250), when \<open>cwd\<close> resolves to a directory inside the root: Glob
  collects the root-relative matches that pass the path validator and the
  ignored-directory filter in scan order, stops and marks \<open>truncated\<close> once \<open>maxResults\<close>
  are collected, and returns what it collected sorted and without duplicates. So the
  result is the sorted, de-duplicated form of the first \<open>maxResults\<close> accepted matches
  in scan order; it has at most \<open>maxResults\<close> entries; \<open>truncated\<close> holds exactly when at
  least \<open>maxResults\<close> matches were accepted; and when it does not hold the result has all
  the accepted matches.
\<close>

theorem globTool_sorts_what_it_collected:
  assumes "total_preorder cmp" and "maxResults \<noteq> Some 0"
    and "(case cwdArg of Some dir \<Rightarrow> resolveWithinRepo cwd repoRoot dir | None \<Rightarrow> Inr repoRoot)
           = Inr baseDir"
    and "lstat baseDir = Directory"
    and "limit = (case maxResults of Some n \<Rightarrow> n | None \<Rightarrow> DEFAULT_MAX_GLOB_RESULTS)"
    and "found = accepted (glob_accept cwd repoRoot baseDir) (scanSync pattern baseDir)"
  shows "globTool cwd repoRoot lstat scanSync cmp pattern cwdArg maxResults
           = Inr \<lparr>matches = sortDistinct cmp (take limit found), truncated = (limit \<le> length found)\<rparr>
     \<and> sorted_wrt (\<lambda>a b. cmp a b \<le> 0) (sortDistinct cmp (take limit found))
     \<and> distinct (sortDistinct cmp (take limit found))
     \<and> set (sortDistinct cmp (take limit found)) = set (take limit found)
     \<and> length (sortDistinct cmp (take limit found)) \<le> limit
     \<and> (\<not> limit \<le> length found \<longrightarrow> set (sortDistinct cmp (take limit found)) = set found)
     \<and> (\<forall>m \<in> set found. \<exists>f \<in> set (scanSync pattern baseDir).
            glob_accept cwd repoRoot baseDir f = Some m)"
proof -
  from assms(2,5) have pos: "0 < limit"
    by (cases maxResults) (simp_all add: DEFAULT_MAX_GLOB_RESULTS_def)
  then have loop: "glob_loop (glob_accept cwd repoRoot baseDir) limit (scanSync pattern baseDir) []
                = (take limit found, limit \<le> length found)"
    using glob_loop_take [of "[]" limit "glob_accept cwd repoRoot baseDir" "scanSync pattern baseDir"]
    by (simp add: assms(6))
  have run: "globTool cwd repoRoot lstat scanSync cmp pattern cwdArg maxResults
           = Inr \<lparr>matches = sortDistinct cmp (take limit found), truncated = (limit \<le> length found)\<rparr>"
    using assms(3,4) loop unfolding globTool_def assms(5) [symmetric]
    by (simp add: Let_def)
  have len: "length (sortDistinct cmp (take limit found)) \<le> limit"
    using sortDistinct_props(3) [of cmp "take limit found"] by simp
  show ?thesis
    using run len sortDistinct_props(1,2) sortDistinct_props(4) [OF assms(1)]
      accepted_from_scan [of _ "glob_accept cwd repoRoot baseDir" "scanSync pattern baseDir"]
    by (auto simp: assms(6))
qed

theorem globTool_sorts_what_it_collected_witness:
  "total_preorder letters_compare
   \<and> accepted (glob_accept (js ''/repo'') (js ''/repo'') (js ''/repo''))
       [js ''b'', js ''../x'', js ''.git/q'', js ''A'', js ''b'', js ''a'']
     = [js ''b'', js ''A'', js ''b'', js ''a'']
   \<and> globTool (js ''/repo'') (js ''/repo'') (\<lambda>p. Directory)
       (\<lambda>p d. [js ''b'', js ''../x'', js ''.git/q'', js ''A'', js ''b'', js ''a''])
       letters_compare (js ''*'') None None
     = Inr \<lparr>matches = [js ''A'', js ''a'', js ''b''], truncated = False\<rparr>
   \<and> sorted_wrt (\<lambda>a b. letters_compare a b \<le> 0) [js ''A'', js ''a'', js ''b'']"
proof -
  let ?scan = "[js ''b'', js ''../x'', js ''.git/q'', js ''A'', js ''b'', js ''a'']"
  let ?found = "[js ''b'', js ''A'', js ''b'', js ''a'']"
  have acc: "accepted (glob_accept (js ''/repo'') (js ''/repo'') (js ''/repo'')) ?scan = ?found"
    by (simp add: accepted_def glob_accept_examples)
  have sorted: "sortDistinct letters_compare (take 250 ?found) = [js ''A'', js ''a'', js ''b'']"
    by (simp add: sortDistinct_def stable_sort_def fold_case_def js_def)
  have "globTool (js ''/repo'') (js ''/repo'') (\<lambda>p. Directory) (\<lambda>p d. ?scan)
       letters_compare (js ''*'') None None
     = Inr \<lparr>matches = sortDistinct letters_compare (take 250 ?found),
            truncated = (250 \<le> length ?found)\<rparr>
     \<and> sorted_wrt (\<lambda>a b. letters_compare a b \<le> 0) (sortDistinct letters_compare (take 250 ?found))"
    using globTool_sorts_what_it_collected [where cmp = letters_compare and maxResults = None
        and cwdArg = None and cwd = "js ''/repo''" and repoRoot = "js ''/repo''"
        and baseDir = "js ''/repo''" and lstat = "\<lambda>p. Directory" and limit = 250
        and found = ?found and scanSync = "\<lambda>p d. ?scan" and pattern = "js ''*''",
        OF total_preorder_letters _ _ _ _ acc [symmetric]]
    by (simp add: DEFAULT_MAX_GLOB_RESULTS_def)
  then have "globTool (js ''/repo'') (js ''/repo'') (\<lambda>p. Directory) (\<lambda>p d. ?scan)
       letters_compare (js ''*'') None None
     = Inr \<lparr>matches = [js ''A'', js ''a'', js ''b''], truncated = False\<rparr>
     \<and> sorted_wrt (\<lambda>a b. letters_compare a b \<le> 0) [js ''A'', js ''a'', js ''b'']"
    by (simp only: sorted) simp
  with acc total_preorder_letters show ?thesis by blast
qed

declare streaming_exec.simps [simp del] full_exec.simps [simp del] find_line_loop.simps [simp del]

subsection \<open>Grep and its limit\<close>

lemma streaming_exec_within:
  "length found < limit \<Longrightarrow>
   within limit (streaming_exec regex byteLength relPath limit ln lineNumber charOffset
                   byteOffset lastIndex found)"
proof (induction regex byteLength relPath limit ln lineNumber charOffset byteOffset lastIndex
         found rule: streaming_exec.induct)
  case (1 regex byteLength relPath limit ln lineNumber charOffset byteOffset lastIndex found)
  show ?case
  proof (cases "regex ln lastIndex")
    case None
    with "1.prems" show ?thesis
      by (subst streaming_exec.simps) (simp add: within_def)
  next
    case (Some r)
    obtain i t where r: "r = (i, t)" by (cases r)
    show ?thesis
      using "1.IH" [OF Some r [symmetric] refl] "1.prems" Some r
      by (subst streaming_exec.simps) (auto simp: within_def Let_def)
  qed
qed

lemma full_exec_within:
  "length found < limit \<Longrightarrow>
   within limit (full_exec regex byteLength relPath limit contents lineIndex lastIndex found)"
proof (induction regex byteLength relPath limit contents lineIndex lastIndex found
         rule: full_exec.induct)
  case (1 regex byteLength relPath limit contents lineIndex lastIndex found)
  show ?case
  proof (cases "regex contents lastIndex")
    case None
    with "1.prems" show ?thesis
      by (subst full_exec.simps) (simp add: within_def)
  next
    case (Some r)
    obtain i t where r: "r = (i, t)" by (cases r)
    obtain a b c where l: "findLineStartIndex lineIndex i = (a, b, c)"
      by (cases "findLineStartIndex lineIndex i") auto
    show ?thesis
      using "1.IH" [OF Some r [symmetric] l [symmetric] refl refl refl refl refl refl] "1.prems" Some r l
      by (subst full_exec.simps) (auto simp: within_def Let_def)
  qed
qed

lemma streaming_lines_within:
  "length found < limit \<Longrightarrow>
   within limit (streaming_lines regex byteLength relPath limit ys lineNumber charOffset
                   byteOffset found)"
proof (induction ys arbitrary: lineNumber charOffset byteOffset found)
  case Nil
  then show ?case by (simp add: within_def)
next
  case (Cons y ys)
  obtain hit pushed
    where e: "streaming_exec regex byteLength relPath limit (yield_line y) (lineNumber + 1)
                charOffset byteOffset 0 found = (hit, pushed)"
    by (cases "streaming_exec regex byteLength relPath limit (yield_line y) (lineNumber + 1)
                charOffset byteOffset 0 found") auto
  from streaming_exec_within [OF Cons.prems, of regex byteLength relPath "yield_line y"
      "lineNumber + 1" charOffset byteOffset 0] e
  have w: "length pushed \<le> limit" "hit \<longleftrightarrow> length pushed = limit"
    by (simp_all add: within_def)
  show ?case
  proof (cases hit)
    case True
    with Cons.prems e w show ?thesis by (simp add: within_def)
  next
    case False
    with w have "length pushed < limit" by simp
    from Cons.IH [OF this] Cons.prems e False show ?thesis by simp
  qed
qed

lemma grep_files_within:
  assumes "\<And>filePath found. length found < limit \<Longrightarrow> within limit (search filePath found)"
  shows "length found < limit \<Longrightarrow>
         (case grep_files search limit filesToSearch found of
            (out, wasTruncated) \<Rightarrow>
              length out \<le> limit \<and> (wasTruncated \<longleftrightarrow> length out = limit))"
proof (induction filesToSearch arbitrary: found)
  case Nil
  then show ?case by simp
next
  case (Cons filePath rest)
  obtain hit pushed where e: "search filePath found = (hit, pushed)"
    by (cases "search filePath found") auto
  from assms [OF Cons.prems, of filePath] e
  have w: "length pushed \<le> limit" "hit \<longleftrightarrow> length pushed = limit"
    by (simp_all add: within_def)
  show ?case
  proof (cases hit)
    case True
    with Cons.prems e w show ?thesis by simp
  next
    case False
    with w have "length pushed < limit" by simp
    from Cons.IH [OF this] Cons.prems e False show ?thesis by simp
  qed
qed

lemma search_within:
  "length found < limit \<Longrightarrow>
   within limit (grep_search regex byteLength cwd repoRoot readContent useFullScan limit
                   filePath found)"
  by (simp add: grep_search_def findMatchesFullScan_def findMatchesStreaming_def
      full_exec_within streaming_lines_within)

lemma grep_path_examples:
  "resolveWithinRepo (js ''/repo'') (js ''/repo'') DOT = Inr (js ''/repo'')"
  "toRepoRelative (js ''/repo'') (js ''/repo'') (js ''/repo/f'') = js ''f''"
  by (simp_all add: toRepoRelative_def path_eval)

lemma grep_scan_examples:
  "findMatchesStreaming (scan_regexp (literal (js ''a''))) length (js ''f'') 2 (js ''axa'') []
     = (True, [\<lparr>match_path = js ''f'', match_line = 1, match_column = 1, match_text = js ''a'',
                match_context = js ''axa'', match_offset = 0, match_byteOffset = 0\<rparr>,
               \<lparr>match_path = js ''f'', match_line = 1, match_column = 3, match_text = js ''a'',
                match_context = js ''axa'', match_offset = 2, match_byteOffset = 2\<rparr>])"
  "findMatchesStreaming (scan_regexp (literal (js ''a''))) length (js ''f'') 3 (js ''axa'') []
     = (False, [\<lparr>match_path = js ''f'', match_line = 1, match_column = 1, match_text = js ''a'',
                 match_context = js ''axa'', match_offset = 0, match_byteOffset = 0\<rparr>,
                \<lparr>match_path = js ''f'', match_line = 1, match_column = 3, match_text = js ''a'',
                 match_context = js ''axa'', match_offset = 2, match_byteOffset = 2\<rparr>])"
  by (simp_all add: findMatchesStreaming_def streamFileLines_def streaming_exec.simps
      scan_regexp_def literal_def buildContextSnippet_def DEFAULT_CONTEXT_CHARS_def
      startsWith_def slice_def slice_index_def js_def)

lemma grep_examples:
  "grepTool (js ''/repo'') (js ''/repo'') (\<lambda>ps. [js ''/repo/f'']) (\<lambda>p. js ''axa'')
       (\<lambda>p f. scan_regexp (literal p)) length (js ''a'') None None (Some 2)
     = Inr \<lparr>matches =
         [\<lparr>match_path = js ''f'', match_line = 1, match_column = 1, match_text = js ''a'',
           match_context = js ''axa'', match_offset = 0, match_byteOffset = 0\<rparr>,
          \<lparr>match_path = js ''f'', match_line = 1, match_column = 3, match_text = js ''a'',
           match_context = js ''axa'', match_offset = 2, match_byteOffset = 2\<rparr>],
            truncated = True\<rparr>"
  "grepTool (js ''/repo'') (js ''/repo'') (\<lambda>ps. [js ''/repo/f'']) (\<lambda>p. js ''axa'')
       (\<lambda>p f. scan_regexp (literal p)) length (js ''a'') None None (Some 3)
     = Inr \<lparr>matches =
         [\<lparr>match_path = js ''f'', match_line = 1, match_column = 1, match_text = js ''a'',
           match_context = js ''axa'', match_offset = 0, match_byteOffset = 0\<rparr>,
          \<lparr>match_path = js ''f'', match_line = 1, match_column = 3, match_text = js ''a'',
           match_context = js ''axa'', match_offset = 2, match_byteOffset = 2\<rparr>],
            truncated = False\<rparr>"
proof -
  have full: "shouldUseFullScan (js ''a'') (Some []) = False"
    by (simp add: shouldUseFullScan_def startsWith_def js_def)
  show "grepTool (js ''/repo'') (js ''/repo'') (\<lambda>ps. [js ''/repo/f'']) (\<lambda>p. js ''axa'')
       (\<lambda>p f. scan_regexp (literal p)) length (js ''a'') None None (Some 2)
     = Inr \<lparr>matches =
         [\<lparr>match_path = js ''f'', match_line = 1, match_column = 1, match_text = js ''a'',
           match_context = js ''axa'', match_offset = 0, match_byteOffset = 0\<rparr>,
          \<lparr>match_path = js ''f'', match_line = 1, match_column = 3, match_text = js ''a'',
           match_context = js ''axa'', match_offset = 2, match_byteOffset = 2\<rparr>],
            truncated = True\<rparr>"
    by (simp add: grepTool_def grep_search_def grep_path_examples grep_scan_examples full)
  show "grepTool (js ''/repo'') (js ''/repo'') (\<lambda>ps. [js ''/repo/f'']) (\<lambda>p. js ''axa'')
       (\<lambda>p f. scan_regexp (literal p)) length (js ''a'') None None (Some 3)
     = Inr \<lparr>matches =
         [\<lparr>match_path = js ''f'', match_line = 1, match_column = 1, match_text = js ''a'',
           match_context = js ''axa'', match_offset = 0, match_byteOffset = 0\<rparr>,
          \<lparr>match_path = js ''f'', match_line = 1, match_column = 3, match_text = js ''a'',
           match_context = js ''axa'', match_offset = 2, match_byteOffset = 2\<rparr>],
            truncated = False\<rparr>"
    by (simp add: grepTool_def grep_search_def grep_path_examples grep_scan_examples full)
qed

text \<open>
  Claim C10. With a positive \<open>maxResults\<close> (default 200), Grep returns at most
  \<open>maxResults\<close> matches and \<open>truncated\<close> is true exactly when it returns \<open>maxResults\<close> of
  them. That includes the search whose content holds exactly \<open>maxResults\<close> matches: the
  file \<open>axa\<close> searched for \<open>a\<close> with \<open>maxResults = 2\<close> gives its two matches and
  \<open>truncated = true\<close>, and with \<open>maxResults = 3\<close> the same two matches, so nothing was
  left out.
\<close>

theorem grepTool_truncated_at_limit:
  "(maxResults \<noteq> Some 0 \<longrightarrow>
      (\<forall>r. grepTool cwd repoRoot collectFiles readContent RegExp byteLength pattern flags
              providedPath maxResults = Inr r \<longrightarrow>
         length (matches r) \<le> (case maxResults of Some n \<Rightarrow> n | None \<Rightarrow> DEFAULT_MAX_GREP_RESULTS)
         \<and> (truncated r \<longleftrightarrow>
              length (matches r)
                = (case maxResults of Some n \<Rightarrow> n | None \<Rightarrow> DEFAULT_MAX_GREP_RESULTS))))
   \<and> map truncated (map projr
         [grepTool (js ''/repo'') (js ''/repo'') (\<lambda>ps. [js ''/repo/f'']) (\<lambda>p. js ''axa'')
            (\<lambda>p f. scan_regexp (literal p)) length (js ''a'') None None (Some 2),
          grepTool (js ''/repo'') (js ''/repo'') (\<lambda>ps. [js ''/repo/f'']) (\<lambda>p. js ''axa'')
            (\<lambda>p f. scan_regexp (literal p)) length (js ''a'') None None (Some 3)])
       = [True, False]
   \<and> map (map projection \<circ> matches) (map projr
         [grepTool (js ''/repo'') (js ''/repo'') (\<lambda>ps. [js ''/repo/f'']) (\<lambda>p. js ''axa'')
            (\<lambda>p f. scan_regexp (literal p)) length (js ''a'') None None (Some 2),
          grepTool (js ''/repo'') (js ''/repo'') (\<lambda>ps. [js ''/repo/f'']) (\<lambda>p. js ''axa'')
            (\<lambda>p f. scan_regexp (literal p)) length (js ''a'') None None (Some 3)])
       = [[(1, 1, js ''a''), (1, 3, js ''a'')], [(1, 1, js ''a''), (1, 3, js ''a'')]]"
proof -
  let ?limit = "case maxResults of Some n \<Rightarrow> n | None \<Rightarrow> DEFAULT_MAX_GREP_RESULTS"
  have general: "length (matches r) \<le> ?limit \<and> (truncated r \<longleftrightarrow> length (matches r) = ?limit)"
    if pos: "maxResults \<noteq> Some 0"
      and run: "grepTool cwd repoRoot collectFiles readContent RegExp byteLength pattern flags
              providedPath maxResults = Inr r" for r
  proof -
    from pos have l: "length ([] :: GrepMatch list) < ?limit"
      by (cases maxResults) (simp_all add: DEFAULT_MAX_GREP_RESULTS_def)
    let ?search = "grep_search
        (RegExp pattern (dedupe_first [] ((case flags of Some f \<Rightarrow> f | None \<Rightarrow> []) @ js ''g'')))
        byteLength cwd repoRoot readContent
        (shouldUseFullScan pattern (Some (case flags of Some f \<Rightarrow> f | None \<Rightarrow> []))) ?limit"
    from run obtain resolved
      where r: "r = \<lparr>matches = fst (grep_files ?search ?limit (collectFiles resolved) []),
                     truncated = snd (grep_files ?search ?limit (collectFiles resolved) [])\<rparr>"
      by (auto simp: grepTool_def Let_def case_prod_beta split: sum.splits)
    from grep_files_within [of ?limit ?search, OF search_within l, of "collectFiles resolved"] r
    show ?thesis
      by (simp add: case_prod_beta)
  qed
  show ?thesis
    using general by (simp add: grep_examples projection_def)
qed

theorem grepTool_truncated_at_limit_witness:
  "truncated (projr (grepTool (js ''/repo'') (js ''/repo'') (\<lambda>ps. [js ''/repo/f'']) (\<lambda>p. js ''axa'')
       (\<lambda>p f. scan_regexp (literal p)) length (js ''a'') None None (Some 2)))
   \<and> length (matches (projr (grepTool (js ''/repo'') (js ''/repo'') (\<lambda>ps. [js ''/repo/f''])
       (\<lambda>p. js ''axa'') (\<lambda>p f. scan_regexp (literal p)) length (js ''a'') None None (Some 2)))) = 2
   \<and> \<not> truncated (projr (grepTool (js ''/repo'') (js ''/repo'') (\<lambda>ps. [js ''/repo/f''])
       (\<lambda>p. js ''axa'') (\<lambda>p f. scan_regexp (literal p)) length (js ''a'') None None (Some 3)))"
  using grepTool_truncated_at_limit [of "Some 2" "js ''/repo''" "js ''/repo''" "\<lambda>ps. [js ''/repo/f'']"
      "\<lambda>p. js ''axa''" "\<lambda>p f. scan_regexp (literal p)" length "js ''a''" None None]
  by (simp add: grep_examples)

subsection \<open>Grep: the line index and the lines of the stream\<close>

lemma yield_terminated_length:
  "length (yield_line (yield_terminated byteLength raw))
     + lineEndingChars (yield_terminated byteLength raw) = Suc (length raw)"
  "lineEndingChars (yield_terminated byteLength raw) > 0"
proof -
  show "lineEndingChars (yield_terminated byteLength raw) > 0"
    by (simp add: yield_terminated_def)
  show "length (yield_line (yield_terminated byteLength raw))
     + lineEndingChars (yield_terminated byteLength raw) = Suc (length raw)"
  proof (cases "endsWith raw [CR]")
    case True
    then have "length raw \<ge> 1" by (simp add: endsWith_def)
    with True show ?thesis
      by (simp add: yield_terminated_def slice_def slice_index_def)
  next
    case False
    then show ?thesis by (simp add: yield_terminated_def)
  qed
qed

lemma line_index_starts:
  "length buffer \<le> i \<Longrightarrow>
   map fst (line_index_from byteLength i b cs)
     = next_starts (i - length buffer) (stream_chars byteLength buffer cs)"
proof (induction cs arbitrary: buffer i b)
  case Nil
  then show ?case by simp
next
  case (Cons c cs)
  show ?case
  proof (cases "c = LF")
    case True
    have "i - length buffer + length (yield_line (yield_terminated byteLength buffer))
            + lineEndingChars (yield_terminated byteLength buffer) = i + 1"
      using Cons.prems yield_terminated_length(1) [of byteLength buffer] by simp
    with True Cons.IH [of "[]" "i + 1"] show ?thesis
      by (simp add: yield_terminated_length(2))
  next
    case False
    with Cons.IH [of "buffer @ [c]" "i + 1"] Cons.prems show ?thesis by simp
  qed
qed

lemma charOffsets_starts:
  "charOffsets (buildLineIndex byteLength contents)
     = 0 # next_starts 0 (streamFileLines byteLength contents)"
  using line_index_starts [of "[]" 0 byteLength 0 contents]
  by (simp add: buildLineIndex_def streamFileLines_def)

lemma stream_chars_ended:
  "stream_chars byteLength buffer cs = pre @ y # z # rest \<Longrightarrow> lineEndingChars y > 0"
proof (induction cs arbitrary: buffer pre)
  case Nil
  then show ?case by (auto simp: Cons_eq_append_conv split: if_splits)
next
  case (Cons c cs)
  show ?case
  proof (cases "c = LF")
    case True
    show ?thesis
    proof (cases pre)
      case Nil
      with Cons.prems True yield_terminated_length(2) [of byteLength buffer] show ?thesis
        by auto
    next
      case (Cons p ps)
      with Cons.prems True have "stream_chars byteLength [] cs = ps @ y # z # rest" by simp
      then show ?thesis by (rule Cons.IH)
    qed
  next
    case False
    with Cons.prems have "stream_chars byteLength (buffer @ [c]) cs = pre @ y # z # rest" by simp
    then show ?thesis by (rule Cons.IH)
  qed
qed

lemma next_starts_greater: "x \<in> set (next_starts s ys) \<Longrightarrow> s < x"
proof (induction ys arbitrary: s)
  case Nil
  then show ?case by simp
next
  case (Cons y ys)
  show ?case
  proof (cases "lineEndingChars y > 0")
    case True
    with Cons.prems Cons.IH [of "s + length (yield_line y) + lineEndingChars y"]
    show ?thesis by auto
  next
    case False
    with Cons.prems Cons.IH [of "s + length (yield_line y)"] show ?thesis by auto
  qed
qed

lemma next_starts_sorted: "sorted_wrt (<) (next_starts s ys)"
  by (induction ys arbitrary: s) (auto dest: next_starts_greater)

subsection \<open>Grep: the binary search for the line of a match\<close>

lemma find_line_loop_correct:
  "sorted_wrt (<) (charOffsets lineIndex) \<Longrightarrow> k < length (charOffsets lineIndex)
   \<Longrightarrow> charOffsets lineIndex ! k \<le> m
   \<Longrightarrow> (Suc k < length (charOffsets lineIndex) \<longrightarrow> m < charOffsets lineIndex ! Suc k)
   \<Longrightarrow> 0 \<le> low \<Longrightarrow> low \<le> int k \<Longrightarrow> int k \<le> high
   \<Longrightarrow> high \<le> int (length (charOffsets lineIndex)) - 1
   \<Longrightarrow> find_line_loop lineIndex m low high
         = (Suc k, charOffsets lineIndex ! k, at_or_zero (byteOffsets lineIndex) (int k))"
proof (induction lineIndex m low high rule: find_line_loop.induct)
  case (1 lineIndex m low high)
  let ?xs = "charOffsets lineIndex"
  let ?mid = "(low + high) div 2"
  note sorted = "1.prems"(1) and k = "1.prems"(2) and below = "1.prems"(3)
    and above = "1.prems"(4)
  from "1.prems" have lh: "low \<le> high" by simp
  from "1.prems" have mid: "low \<le> ?mid" "?mid \<le> high" "0 \<le> ?mid" by simp_all
  from mid "1.prems" have midlen: "nat ?mid < length ?xs" by simp
  have mono: "?xs ! a < ?xs ! b" if "a < b" "b < length ?xs" for a b
    using sorted that by (simp add: sorted_wrt_nth_less)
  have mono_le: "?xs ! a \<le> ?xs ! b" if "a \<le> b" "b < length ?xs" for a b
    using mono [of a b] that by (cases "a = b") auto
  have off: "at_or_zero ?xs ?mid = ?xs ! nat ?mid"
    using mid midlen by (simp add: at_or_zero_def)
  show ?case
  proof (cases "?xs ! nat ?mid \<le> m")
    case True
    have midk: "nat ?mid \<le> k"
    proof (rule ccontr)
      assume "\<not> nat ?mid \<le> k"
      then have "Suc k \<le> nat ?mid" by simp
      from mono_le [OF this midlen] above midlen \<open>Suc k \<le> nat ?mid\<close> True
      show False by simp
    qed
    show ?thesis
    proof (cases "nat ?mid = k")
      case eq: True
      then have midint: "?mid = int k" using mid by simp
      have stop: "?mid = int (length ?xs) - 1
                  \<or> (0 \<le> ?mid + 1 \<and> nat (?mid + 1) < length ?xs \<and> m < ?xs ! nat (?mid + 1))"
      proof (cases "Suc k < length ?xs")
        case True
        with above midint show ?thesis by (simp add: nat_add_distrib)
      next
        case False
        with k midint show ?thesis by simp
      qed
      show ?thesis
        using lh True stop eq midint off
        by (subst find_line_loop.simps) (simp add: Let_def nat_add_distrib)
    next
      case neq: False
      with midk have lt: "nat ?mid < k" by simp
      then have next_le: "?xs ! Suc (nat ?mid) \<le> m"
        using mono_le [of "Suc (nat ?mid)" k] k below by simp
      have nostop: "?mid \<noteq> int (length ?xs) - 1" "\<not> m < ?xs ! nat (?mid + 1)"
        using lt k next_le mid by (auto simp: nat_add_distrib)
      have nostop': "\<not> (?mid = int (length ?xs) - 1
                  \<or> (0 \<le> ?mid + 1 \<and> nat (?mid + 1) < length ?xs \<and> m < ?xs ! nat (?mid + 1)))"
        using nostop by blast
      have rec: "find_line_loop lineIndex m (?mid + 1) high
         = (Suc k, ?xs ! k, at_or_zero (byteOffsets lineIndex) (int k))"
        using lh True nostop' off lt mid "1.prems"
        by (intro "1.IH"(1) [OF lh refl refl]) (simp_all add: off)
      show ?thesis
        using lh True nostop off rec
        by (subst find_line_loop.simps) (simp add: Let_def)
    qed
  next
    case False
    have kmid: "k < nat ?mid"
    proof (rule ccontr)
      assume "\<not> k < nat ?mid"
      then have "nat ?mid \<le> k" by simp
      from mono_le [OF this k] below False show False by simp
    qed
    have rec: "find_line_loop lineIndex m low (?mid - 1)
         = (Suc k, ?xs ! k, at_or_zero (byteOffsets lineIndex) (int k))"
      using lh False off kmid mid "1.prems"
      by (intro "1.IH"(2) [OF lh refl refl]) (simp_all add: off)
    show ?thesis
      using lh False off rec
      by (subst find_line_loop.simps) (simp add: Let_def)
  qed
qed

lemma stream_chars_open: "only_last_open (stream_chars byteLength buffer cs)"
  by (induction cs arbitrary: buffer) (simp_all add: yield_terminated_length(2))

lemma line_index_sorted:
  "sorted_wrt (<) (charOffsets (buildLineIndex byteLength contents))"
  using next_starts_greater [of _ 0] next_starts_sorted [of 0]
  by (auto simp: charOffsets_starts)

lemma findLineStartIndex_line:
  assumes sorted: "sorted_wrt (<) (charOffsets lineIndex)"
    and offsets: "charOffsets lineIndex = pre @ s # next_starts s (y # ys)"
    and opened: "ys = [] \<or> lineEndingChars y > 0"
    and i: "i \<le> length (yield_line y)"
  shows "\<exists>b. findLineStartIndex lineIndex (s + i) = (Suc (length pre), s, b)"
proof -
  let ?xs = "charOffsets lineIndex"
  let ?k = "length pre"
  have k: "?k < length ?xs" and at: "?xs ! ?k = s" by (simp_all add: offsets)
  have above: "Suc ?k < length ?xs \<longrightarrow> s + i < ?xs ! Suc ?k"
  proof
    assume len: "Suc ?k < length ?xs"
    show "s + i < ?xs ! Suc ?k"
    proof (cases "lineEndingChars y > 0")
      case True
      then have "?xs ! Suc ?k = s + length (yield_line y) + lineEndingChars y"
        by (simp add: offsets nth_append)
      with True i show ?thesis by simp
    next
      case False
      with opened have "ys = []" by simp
      with False len show ?thesis by (simp add: offsets)
    qed
  qed
  have "find_line_loop lineIndex (s + i) 0 (int (length ?xs) - 1)
          = (Suc ?k, ?xs ! ?k, at_or_zero (byteOffsets lineIndex) (int ?k))"
    using sorted k above by (intro find_line_loop_correct) (simp_all add: at)
  then show ?thesis by (simp add: findLineStartIndex_def at)
qed

subsection \<open>Grep: the full-buffer scan simulates the streaming scan\<close>

lemma full_exec_cong:
  "regex contents a = regex contents b \<Longrightarrow>
   full_exec regex byteLength relPath limit contents lineIndex a ff
     = full_exec regex byteLength relPath limit contents lineIndex b ff"
  by (simp add: full_exec.simps [of _ _ _ _ _ _ a ff] full_exec.simps [of _ _ _ _ _ _ b ff])

lemma line_simulation:
  assumes sorted: "sorted_wrt (<) (charOffsets lineIndex)"
    and offsets: "charOffsets lineIndex = pre @ s # next_starts s (y # ys)"
    and opened: "ys = [] \<or> lineEndingChars y > 0"
    and local: "list_all
        (\<lambda>q. case regex (yield_line y) q of
               Some (i, t) \<Rightarrow>
                 q \<le> i \<and> i + length t \<le> length (yield_line y)
                 \<and> regex contents (s + q) = Some (s + i, t)
             | None \<Rightarrow>
                 regex contents (s + q)
                   = (if ys = [] then None
                      else regex contents (s + length (yield_line y) + lineEndingChars y)))
        [0 ..< Suc (length (yield_line y))]"
    and cont: "\<And>out ff'. map projection out = map projection ff' \<Longrightarrow> length out < limit \<Longrightarrow>
        same_matches (K out)
          (if ys = [] then (False, ff')
           else full_exec regex byteLength relPath limit contents lineIndex
                  (s + length (yield_line y) + lineEndingChars y) ff')"
  shows "q \<le> length (yield_line y) \<Longrightarrow> map projection found = map projection ff \<Longrightarrow>
     length found < limit \<Longrightarrow>
     same_matches
       (case streaming_exec regex byteLength relPath limit (yield_line y) (Suc (length pre))
               co bo q found of
          (hit, out) \<Rightarrow> if hit then (True, out) else K out)
       (full_exec regex byteLength relPath limit contents lineIndex (s + q) ff)"
proof (induction "limit - length found" arbitrary: found ff q rule: less_induct)
  case less
  let ?ln = "yield_line y"
  from less.prems(1) local have at_q:
    "case regex ?ln q of
       Some (i, t) \<Rightarrow> q \<le> i \<and> i + length t \<le> length ?ln
                       \<and> regex contents (s + q) = Some (s + i, t)
     | None \<Rightarrow> regex contents (s + q)
                 = (if ys = [] then None
                    else regex contents (s + length ?ln + lineEndingChars y))"
    by (simp add: list_all_iff del: upt_Suc)
  have len: "length found = length ff"
    using less.prems(2) by (rule map_eq_imp_length_eq)
  show ?case
  proof (cases "regex ?ln q")
    case None
    with at_q have whole: "regex contents (s + q)
        = (if ys = [] then None else regex contents (s + length ?ln + lineEndingChars y))"
      by simp
    have full: "full_exec regex byteLength relPath limit contents lineIndex (s + q) ff
        = (if ys = [] then (False, ff)
           else full_exec regex byteLength relPath limit contents lineIndex
                  (s + length ?ln + lineEndingChars y) ff)"
    proof (cases "ys = []")
      case True
      with whole show ?thesis
        by (simp add: full_exec.simps [of _ _ _ _ _ _ "s + q" ff])
    next
      case False
      with whole full_exec_cong [of regex contents "s + q" "s + length ?ln + lineEndingChars y"]
      show ?thesis by simp
    qed
    from None have "streaming_exec regex byteLength relPath limit ?ln (Suc (length pre))
               co bo q found = (False, found)"
      by (simp add: streaming_exec.simps [of _ _ _ _ _ _ _ _ q found])
    with full cont [OF less.prems(2) less.prems(3)] show ?thesis by simp
  next
    case (Some hit)
    obtain i t where hit: "hit = (i, t)" by (cases hit)
    with Some at_q have i: "q \<le> i" "i + length t \<le> length ?ln"
      and whole: "regex contents (s + q) = Some (s + i, t)" by simp_all
    from i have "i \<le> length ?ln" by simp
    from findLineStartIndex_line [OF sorted offsets opened this]
    obtain b where line: "findLineStartIndex lineIndex (s + i) = (Suc (length pre), s, b)" ..
    define m1 where "m1 = \<lparr>match_path = relPath, match_line = Suc (length pre),
        match_column = i + 1, match_text = t,
        match_context = buildContextSnippet ?ln i (length t),
        match_offset = co + i,
        match_byteOffset = bo + byteLength (slice ?ln 0 (int i))\<rparr>"
    define lineText where "lineText =
        (let lineEndIndex = (case indexOf contents LF (s + i) of
                               None \<Rightarrow> length contents
                             | Some e \<Rightarrow> e);
             wholeLine = slice contents (int s) (int lineEndIndex)
         in if endsWith wholeLine [CR] then slice wholeLine 0 (-1) else wholeLine)"
    define m2 where "m2 = \<lparr>match_path = relPath, match_line = Suc (length pre),
        match_column = s + i - s + 1, match_text = t,
        match_context = buildContextSnippet lineText (s + i - s) (length t),
        match_offset = s + i,
        match_byteOffset = b + byteLength (slice contents (int s) (int (s + i)))\<rparr>"
    have m2: "projection m2 = projection m1"
      by (simp add: m1_def m2_def projection_def)
    have full: "full_exec regex byteLength relPath limit contents lineIndex (s + q) ff
        = (if length (ff @ [m2]) \<ge> limit then (True, ff @ [m2])
           else full_exec regex byteLength relPath limit contents lineIndex
                  (s + (i + length t)) (ff @ [m2]))"
      using whole line
      by (simp add: full_exec.simps [of _ _ _ _ _ _ "s + q" ff] Let_def m2_def lineText_def
          add.assoc)
    have stream: "streaming_exec regex byteLength relPath limit ?ln (Suc (length pre))
               co bo q found
        = (if length (found @ [m1]) \<ge> limit then (True, found @ [m1])
           else streaming_exec regex byteLength relPath limit ?ln (Suc (length pre))
                  co bo (i + length t) (found @ [m1]))"
      using Some hit
      by (simp add: streaming_exec.simps [of _ _ _ _ _ _ _ _ q found] Let_def m1_def)
    have proj: "map projection (found @ [m1]) = map projection (ff @ [m2])"
      using less.prems(2) m2 by simp
    show ?thesis
    proof (cases "length (found @ [m1]) \<ge> limit")
      case True
      with stream full proj len show ?thesis by (simp add: same_matches_def)
    next
      case False
      then have smaller: "limit - length (found @ [m1]) < limit - length found"
        and room: "length (found @ [m1]) < limit" by simp_all
      from less.hyps [OF smaller i(2) proj room] stream full False len
      show ?thesis by simp
    qed
  qed
qed

lemma streaming_lines_step:
  "length found < limit \<Longrightarrow>
   streaming_lines regex byteLength relPath limit (y # ys) n co bo found
     = (case streaming_exec regex byteLength relPath limit (yield_line y) (Suc n) co bo 0 found of
          (hit, out) \<Rightarrow>
            if hit then (True, out)
            else streaming_lines regex byteLength relPath limit ys (Suc n)
                   (co + length (yield_line y) + lineEndingChars y)
                   (bo + lineBytes y + lineEndingBytes y) out)"
  by (simp add: case_prod_beta)

lemma lines_simulation:
  "sorted_wrt (<) (charOffsets lineIndex) \<Longrightarrow>
   charOffsets lineIndex = pre @ s # next_starts s (y # ys) \<Longrightarrow>
   only_last_open (y # ys) \<Longrightarrow> line_local regex contents (y # ys) s \<Longrightarrow>
   map projection found = map projection ff \<Longrightarrow> length found < limit \<Longrightarrow>
   same_matches
     (streaming_lines regex byteLength relPath limit (y # ys) (length pre) co bo found)
     (full_exec regex byteLength relPath limit contents lineIndex s ff)"
proof (induction ys arbitrary: y pre s co bo found ff)
  case Nil
  let ?co' = "co + length (yield_line y) + lineEndingChars y"
  let ?bo' = "bo + lineBytes y + lineEndingBytes y"
  have "same_matches
       (case streaming_exec regex byteLength relPath limit (yield_line y) (Suc (length pre))
               co bo 0 found of
          (hit, out) \<Rightarrow> if hit then (True, out)
             else streaming_lines regex byteLength relPath limit [] (Suc (length pre))
                    ?co' ?bo' out)
       (full_exec regex byteLength relPath limit contents lineIndex (s + 0) ff)"
    using Nil.prems
    by (intro line_simulation [where ys = "[]"]) (simp_all add: same_matches_def)
  then show ?case
    unfolding streaming_lines_step [OF Nil.prems(6)] by (simp only: add_0_right)
next
  case (Cons z zs)
  let ?s' = "s + length (yield_line y) + lineEndingChars y"
  let ?co' = "co + length (yield_line y) + lineEndingChars y"
  let ?bo' = "bo + lineBytes y + lineEndingBytes y"
  from Cons.prems(3) have ending: "lineEndingChars y > 0" and opened: "only_last_open (z # zs)"
    by simp_all
  from Cons.prems(2) ending
  have offsets': "charOffsets lineIndex = (pre @ [s]) @ ?s' # next_starts ?s' (z # zs)"
    by simp
  from Cons.prems(4) have local': "line_local regex contents (z # zs) ?s'" by simp
  have cont: "same_matches
        (streaming_lines regex byteLength relPath limit (z # zs) (Suc (length pre)) ?co' ?bo' out)
        (if z # zs = [] then (False, ff')
         else full_exec regex byteLength relPath limit contents lineIndex ?s' ff')"
    if "map projection out = map projection ff'" "length out < limit" for out ff'
    using Cons.IH [OF Cons.prems(1) offsets' opened local' that, of ?co' ?bo'] by simp
  from Cons.prems(4) have local: "list_all
        (\<lambda>q. case regex (yield_line y) q of
               Some (i, t) \<Rightarrow>
                 q \<le> i \<and> i + length t \<le> length (yield_line y)
                 \<and> regex contents (s + q) = Some (s + i, t)
             | None \<Rightarrow>
                 regex contents (s + q)
                   = (if z # zs = [] then None
                      else regex contents (s + length (yield_line y) + lineEndingChars y)))
        [0 ..< Suc (length (yield_line y))]"
    by (simp del: upt_Suc)
  have opened_y: "z # zs = [] \<or> lineEndingChars y > 0" using ending by simp
  have "same_matches
       (case streaming_exec regex byteLength relPath limit (yield_line y) (Suc (length pre))
               co bo 0 found of
          (hit, out) \<Rightarrow> if hit then (True, out)
             else streaming_lines regex byteLength relPath limit (z # zs) (Suc (length pre))
                    ?co' ?bo' out)
       (full_exec regex byteLength relPath limit contents lineIndex (s + 0) ff)"
    by (rule line_simulation [OF Cons.prems(1,2) opened_y local cont _ Cons.prems(5,6)]) simp_all
  then show ?case
    unfolding streaming_lines_step [OF Cons.prems(6)] by (simp only: add_0_right)
qed

lemmas scan_eval = streamFileLines_def streaming_exec.simps yield_terminated_def
  scan_regexp_def literal_def char_class_def buildContextSnippet_def DEFAULT_CONTEXT_CHARS_def
  startsWith_def endsWith_def slice_def slice_index_def

lemma line_local_example:
  "line_local_on (scan_regexp (literal (js ''ab''))) length (js ''ab'' @ CR # LF # js ''cab'')"
  by (simp add: line_local_on_def scan_eval js_def)

lemma streaming_examples:
  "findMatchesStreaming (scan_regexp (literal (js ''ab''))) length (js ''f'') 5
     (js ''ab'' @ CR # LF # js ''cab'') []
     = (False, [\<lparr>match_path = js ''f'', match_line = 1, match_column = 1,
                  match_text = js ''ab'', match_context = js ''ab'', match_offset = 0,
                  match_byteOffset = 0\<rparr>,
                 \<lparr>match_path = js ''f'', match_line = 2, match_column = 2,
                  match_text = js ''ab'', match_context = js ''cab'', match_offset = 5,
                  match_byteOffset = 5\<rparr>])"
  "findMatchesStreaming (scan_regexp (char_class (\<lambda>c. c \<noteq> 0x61))) length
     (js ''f'') 5 (js ''b'' @ LF # js ''c'') []
     = (False, [\<lparr>match_path = js ''f'', match_line = 1, match_column = 1,
                  match_text = js ''b'', match_context = js ''b'', match_offset = 0,
                  match_byteOffset = 0\<rparr>,
                 \<lparr>match_path = js ''f'', match_line = 2, match_column = 1,
                  match_text = js ''c'', match_context = js ''c'', match_offset = 2,
                  match_byteOffset = 2\<rparr>])"
  by (simp_all add: findMatchesStreaming_def scan_eval js_def)

lemma full_scan_example:
  "findMatchesFullScan (scan_regexp (char_class (\<lambda>c. c \<noteq> 0x61))) length
     (js ''f'') 5 (js ''b'' @ LF # js ''c'') []
     = (False, [\<lparr>match_path = js ''f'', match_line = 1, match_column = 1,
                  match_text = js ''b'', match_context = js ''b'', match_offset = 0,
                  match_byteOffset = 0\<rparr>,
                 \<lparr>match_path = js ''f'', match_line = 1, match_column = 2,
                  match_text = [LF], match_context = js ''b'', match_offset = 1,
                  match_byteOffset = 1\<rparr>,
                 \<lparr>match_path = js ''f'', match_line = 2, match_column = 1,
                  match_text = js ''c'', match_context = js ''c'', match_offset = 2,
                  match_byteOffset = 2\<rparr>])"
  by code_simp

lemma anchored_examples:
  "findMatchesStreaming (anchored (js ''b'')) length (js ''f'') 5 (js ''a'' @ LF # js ''b'') []
     = (False, [\<lparr>match_path = js ''f'', match_line = 2, match_column = 1,
                  match_text = js ''b'', match_context = js ''b'', match_offset = 2,
                  match_byteOffset = 2\<rparr>])"
  "findMatchesFullScan (anchored (js ''b'')) length (js ''f'') 5 (js ''a'' @ LF # js ''b'') []
     = (False, [])"
  by code_simp+

text \<open>
  Claim C7, as stated: for every file content and every single-line pattern (no newline,
  no \<open>\n\<close> or \<open>\r\<close> escape in the pattern text, no dotall flag) the streaming scan
  and the full-buffer scan produce the same sequence of line, column and matched text.
  It fails: the test on the pattern text does not keep a pattern from matching a line
  terminator. The pattern \<open>[^a]\<close> passes the test (\<open>shouldUseFullScan\<close> is false) and, as
  a negated class (\<open>0x61\<close> is the letter \<open>a\<close>), matches a newline. On the content \<open>b\<close>,
  newline, \<open>c\<close> the streaming scan reports \<open>b\<close> and \<open>c\<close>, and the full-buffer scan reports
  the newline between them as well, at line 1, column 2. Nor is it enough that no match
  holds a line terminator: the pattern \<open>^b\<close> passes the test too, and on the content \<open>a\<close>,
  newline, \<open>b\<close> the streaming scan, which starts anew on every line, reports \<open>b\<close> at line
  2, and the full-buffer scan reports nothing.
\<close>

theorem findMatches_strategies_differ_counterexample:
  "shouldUseFullScan (js ''[^a]'') (Some []) = False
   \<and> map projection (snd (findMatchesStreaming
         (scan_regexp (char_class (\<lambda>c. c \<noteq> 0x61))) length (js ''f'') 5
         (js ''b'' @ LF # js ''c'') []))
       = [(1, 1, js ''b''), (2, 1, js ''c'')]
   \<and> map projection (snd (findMatchesFullScan
         (scan_regexp (char_class (\<lambda>c. c \<noteq> 0x61))) length (js ''f'') 5
         (js ''b'' @ LF # js ''c'') []))
       = [(1, 1, js ''b''), (1, 2, [LF]), (2, 1, js ''c'')]
   \<and> shouldUseFullScan (js ''^b'') (Some []) = False
   \<and> map projection (snd (findMatchesStreaming (anchored (js ''b'')) length (js ''f'') 5
         (js ''a'' @ LF # js ''b'') []))
       = [(2, 1, js ''b'')]
   \<and> map projection (snd (findMatchesFullScan (anchored (js ''b'')) length (js ''f'') 5
         (js ''a'' @ LF # js ''b'') []))
       = []"
  by (simp add: streaming_examples full_scan_example anchored_examples projection_def,
      simp add: shouldUseFullScan_def startsWith_def js_def)

subsection \<open>Grep: matchers that stay in the line\<close>

lemma find_at_shift:
  "find_at m (a + k) xs = map_option (\<lambda>(i, n). (a + i, n)) (find_at m k xs)"
proof (induction xs arbitrary: k)
  case Nil
  then show ?case by (simp split: option.splits)
next
  case (Cons x xs)
  from Cons.IH [of "Suc k"] show ?case by (simp split: option.splits)
qed

lemma find_at_ge: "find_at m k xs = Some (i, n) \<Longrightarrow> k \<le> i \<and> i \<le> k + length xs"
proof (induction xs arbitrary: k)
  case Nil
  then show ?case by (auto split: option.splits)
next
  case (Cons x xs)
  show ?case
  proof (cases "m (x # xs)")
    case None
    with Cons.prems have "find_at m (k + 1) xs = Some (i, n)" by simp
    from Cons.IH [OF this] show ?thesis by simp
  next
    case (Some a)
    with Cons.prems show ?thesis by simp
  qed
qed

lemma find_at_hit: "find_at m k xs = Some (i, n) \<Longrightarrow> m (drop (i - k) xs) = Some n"
proof (induction xs arbitrary: k)
  case Nil
  then show ?case by (auto split: option.splits)
next
  case (Cons x xs)
  show ?case
  proof (cases "m (x # xs)")
    case None
    with Cons.prems have r: "find_at m (k + 1) xs = Some (i, n)" by simp
    from find_at_ge [OF r] have "i - k = Suc (i - (k + 1))" by arith
    with Cons.IH [OF r] show ?thesis by simp
  next
    case (Some a)
    with Cons.prems show ?thesis by simp
  qed
qed

lemma takeWhile_line_append:
  assumes "w = [] \<or> \<not> line_char (hd w)"
  shows "takeWhile line_char (xs @ w) = takeWhile line_char xs"
proof (cases "\<forall>x \<in> set xs. line_char x")
  case True
  from assms have w: "takeWhile line_char w = []" by (cases w) auto
  from True have "takeWhile line_char (xs @ w) = xs @ takeWhile line_char w"
    by (intro takeWhile_append2) simp
  also have "\<dots> = xs" by (simp only: w append_Nil2)
  also from True have "xs = takeWhile line_char xs"
    by (intro sym [OF takeWhile_eq_all_conv [THEN iffD2]])
  finally show ?thesis .
next
  case False
  then show ?thesis by (auto simp: takeWhile_append1)
qed

lemma line_matcher_append:
  assumes "line_matcher m" and "w = [] \<or> \<not> line_char (hd w)"
  shows "m (xs @ w) = m xs"
proof -
  from assms(1) have "m (xs @ w) = m (takeWhile line_char (xs @ w))"
    and "m xs = m (takeWhile line_char xs)"
    unfolding line_matcher_def by blast+
  with takeWhile_line_append [OF assms(2)] show ?thesis by simp
qed

lemma line_matcher_length:
  assumes "line_matcher m" and "m s = Some n"
  shows "n \<le> length s"
proof -
  from assms(1) have "case m s of Some n \<Rightarrow> n \<le> length (takeWhile line_char s) | None \<Rightarrow> True"
    unfolding line_matcher_def by blast
  with assms(2) have "n \<le> length (takeWhile line_char s)" by simp
  also have "\<dots> \<le> length s" by (rule length_takeWhile_le)
  finally show ?thesis .
qed

lemma find_at_append:
  assumes "line_matcher m" and "w = [] \<or> \<not> line_char (hd w)"
  shows "find_at m k (xs @ w)
           = (case find_at m k xs of
                Some r \<Rightarrow> Some r
              | None \<Rightarrow> (case w of [] \<Rightarrow> None | c # rest \<Rightarrow> find_at m (k + length xs + 1) rest))"
proof (induction xs arbitrary: k)
  case Nil
  from line_matcher_append [OF assms, of "[]"] have w: "m w = m []" by simp
  show ?case
  proof (cases w)
    case Nil
    then show ?thesis by (simp split: option.splits)
  next
    case (Cons c rest)
    from w have "m (c # rest) = m []" by (simp only: Cons)
    then show ?thesis by (simp add: Cons split: option.splits)
  qed
next
  case (Cons x xs)
  from line_matcher_append [OF assms, of "x # xs"] have same: "m (x # xs @ w) = m (x # xs)"
    by simp
  show ?case
  proof (cases "m (x # xs)")
    case None
    with same Cons.IH [of "k + 1"] show ?thesis
      by (simp split: option.splits list.splits)
  next
    case (Some n)
    with same show ?thesis by simp
  qed
qed

lemma find_at_none_nil: "find_at m k xs = None \<Longrightarrow> m [] = None"
  by (induction xs arbitrary: k) (auto split: option.splits)

lemma scan_line_hit:
  assumes lm: "line_matcher m" and w: "w = [] \<or> \<not> line_char (hd w)"
    and q: "q \<le> length line" and hit: "scan_regexp m line q = Some (i, t)"
  shows "q \<le> i \<and> i + length t \<le> length line
         \<and> scan_regexp m (P @ line @ w) (length P + q) = Some (length P + i, t)"
proof -
  from hit q obtain n where found: "find_at m q (drop q line) = Some (i, n)"
    and t: "t = take n (drop i line)"
    by (auto simp: scan_regexp_def split: option.splits)
  from find_at_ge [OF found] q have i: "q \<le> i" "i \<le> length line" by simp_all
  from find_at_hit [OF found] i have "m (drop i line) = Some n" by simp
  from line_matcher_length [OF lm this] have n: "n \<le> length line - i" by simp
  with t i have len: "length t = n" by simp
  have "find_at m (length P + q) (drop q line @ w) = Some (length P + i, n)"
    using found by (simp add: find_at_append [OF lm w] find_at_shift)
  moreover have "drop (length P + q) (P @ line @ w) = drop q line @ w"
    using q by simp
  moreover have "take n (drop (length P + i) (P @ line @ w)) = t"
    using n i t by simp
  ultimately have "scan_regexp m (P @ line @ w) (length P + q) = Some (length P + i, t)"
    using q by (simp add: scan_regexp_def)
  with i n len show ?thesis by simp
qed

lemma scan_line_miss:
  assumes lm: "line_matcher m" and w: "w = [] \<or> \<not> line_char (hd w)"
    and q: "q \<le> length line" and miss: "scan_regexp m line q = None"
  shows "scan_regexp m (P @ line @ w) (length P + q)
           = (case w of
                [] \<Rightarrow> None
              | c # rest \<Rightarrow> scan_regexp m (P @ line @ w) (length P + length line + 1))"
    and "m [] = None"
proof -
  from miss q have none: "find_at m q (drop q line) = None"
    by (auto simp: scan_regexp_def split: option.splits)
  then show "m [] = None" by (rule find_at_none_nil)
  have drop: "drop (length P + q) (P @ line @ w) = drop q line @ w"
    using q by simp
  from none have shifted: "find_at m (length P + q) (drop q line) = None"
    by (simp add: find_at_shift)
  show "scan_regexp m (P @ line @ w) (length P + q)
           = (case w of
                [] \<Rightarrow> None
              | c # rest \<Rightarrow> scan_regexp m (P @ line @ w) (length P + length line + 1))"
  proof (cases w)
    case Nil
    with shifted drop q show ?thesis
      using find_at_append [OF lm w, of "length P + q" "drop q line"]
      by (simp add: scan_regexp_def)
  next
    case (Cons c rest)
    have "find_at m (length P + q) (drop q line @ w)
            = find_at m (length P + length line + 1) rest"
      using find_at_append [OF lm w, of "length P + q" "drop q line"] shifted q
      by (simp add: Cons)
    moreover have "drop (length P + length line + 1) (P @ line @ w) = rest"
      by (simp add: Cons)
    ultimately show ?thesis
      using q drop by (simp add: scan_regexp_def Cons)
  qed
qed

lemma scan_line_condition:
  assumes lm: "line_matcher m" and contents: "contents = P @ line @ w"
    and shape: "(w = [] \<and> e = 0 \<and> final)
                \<or> (w = LF # rest \<and> e = 1 \<and> (final \<longleftrightarrow> rest = []))
                \<or> (w = CR # LF # rest \<and> e = 2 \<and> (final \<longleftrightarrow> rest = []))"
  shows "list_all
        (\<lambda>q. case scan_regexp m line q of
               Some (i, t) \<Rightarrow>
                 q \<le> i \<and> i + length t \<le> length line
                 \<and> scan_regexp m contents (length P + q) = Some (length P + i, t)
             | None \<Rightarrow>
                 scan_regexp m contents (length P + q)
                   = (if final then None
                      else scan_regexp m contents (length P + length line + e)))
        [0 ..< Suc (length line)]"
proof -
  from shape have w: "w = [] \<or> \<not> line_char (hd w)" by (auto simp: line_char_def)
  have "case scan_regexp m line q of
               Some (i, t) \<Rightarrow>
                 q \<le> i \<and> i + length t \<le> length line
                 \<and> scan_regexp m contents (length P + q) = Some (length P + i, t)
             | None \<Rightarrow>
                 scan_regexp m contents (length P + q)
                   = (if final then None
                      else scan_regexp m contents (length P + length line + e))"
    if q: "q \<le> length line" for q
  proof (cases "scan_regexp m line q")
    case (Some r)
    obtain i t where r: "r = (i, t)" by (cases r)
    with Some have "scan_regexp m line q = Some (i, t)" by simp
    from scan_line_hit [OF lm w q this, where P = P] Some r show ?thesis
      by (simp add: contents)
  next
    case None
    note first = scan_line_miss(1) [OF lm w q None, where P = P]
      scan_line_miss(2) [OF lm w q None]
    have at_end: "scan_regexp m contents (length contents) = None"
      using first(2) by (simp add: scan_regexp_def)
    from shape consider
      (open_line) "w = []" "e = 0" "final"
      | (lf) "w = LF # rest" "e = 1" "final \<longleftrightarrow> rest = []"
      | (crlf) "w = CR # LF # rest" "e = 2" "final \<longleftrightarrow> rest = []"
      by blast
    then have "scan_regexp m contents (length P + q)
                   = (if final then None
                      else scan_regexp m contents (length P + length line + e))"
    proof cases
      case open_line
      with first(1) show ?thesis by (simp add: contents)
    next
      case lf
      from first(1) have step: "scan_regexp m contents (length P + q)
          = scan_regexp m contents (length P + length line + 1)"
        by (simp add: contents lf(1))
      show ?thesis
      proof (cases "rest = []")
        case True
        then have "length P + length line + 1 = length contents" by (simp add: contents lf(1))
        with step at_end lf True show ?thesis by simp
      next
        case False
        with step lf show ?thesis by simp
      qed
    next
      case crlf
      from first(1) have step: "scan_regexp m contents (length P + q)
          = scan_regexp m contents (length P + length line + 1)"
        by (simp add: contents crlf(1))
      have empty: "scan_regexp m [] 0 = None"
        using first(2) by (simp add: scan_regexp_def)
      have "scan_regexp m ((P @ line @ [CR]) @ [] @ LF # rest) (length (P @ line @ [CR]) + 0)
          = scan_regexp m ((P @ line @ [CR]) @ [] @ LF # rest)
              (length (P @ line @ [CR]) + length ([] :: jsstring) + 1)"
        using scan_line_miss(1) [OF lm _ _ empty, of "LF # rest" "P @ line @ [CR]"]
        by (simp add: line_char_def)
      then have step2: "scan_regexp m contents (length P + length line + 1)
          = scan_regexp m contents (length P + length line + 2)"
        by (simp add: contents crlf(1))
      show ?thesis
      proof (cases "rest = []")
        case True
        then have "length P + length line + 2 = length contents"
          by (simp add: contents crlf(1))
        with step step2 at_end crlf True show ?thesis by simp
      next
        case False
        with step step2 crlf show ?thesis by simp
      qed
    qed
    with None show ?thesis by simp
  qed
  then show ?thesis by (simp add: list_all_iff del: upt_Suc)
qed

lemma stream_chars_empty: "stream_chars byteLength buffer cs = [] \<longleftrightarrow> buffer = [] \<and> cs = []"
  by (induction cs arbitrary: buffer) auto

lemma stream_chars_local:
  assumes lm: "line_matcher m"
  shows "contents = P @ buffer @ cs \<Longrightarrow>
         line_local (scan_regexp m) contents (stream_chars byteLength buffer cs) (length P)"
proof (induction cs arbitrary: buffer P)
  case Nil
  show ?case
  proof (cases "buffer = []")
    case True
    then show ?thesis by simp
  next
    case False
    define y where "y = \<lparr>yield_line = buffer, lineEndingChars = 0,
        lineBytes = byteLength buffer, lineEndingBytes = 0\<rparr>"
    have y: "yield_line y = buffer" "lineEndingChars y = 0" by (simp_all add: y_def)
    from False have lines: "stream_chars byteLength buffer [] = [y]" by (simp add: y_def)
    from Nil.prems have "contents = P @ yield_line y @ []" by (simp add: y)
    from scan_line_condition [OF lm this, of "lineEndingChars y" "([] :: LineYield list) = []"]
    show ?thesis by (simp only: lines line_local.simps y simp_thms)
  qed
next
  case (Cons c cs)
  show ?case
  proof (cases "c = LF")
    case False
    from Cons.prems have "contents = P @ (buffer @ [c]) @ cs" by simp
    from Cons.IH [OF this] False show ?thesis by simp
  next
    case True
    let ?y = "yield_terminated byteLength buffer"
    let ?ys = "stream_chars byteLength [] cs"
    let ?next = "length P + length (yield_line ?y) + lineEndingChars ?y"
    have next_start: "?next = length (P @ buffer @ [LF])"
      using yield_terminated_length(1) [of byteLength buffer] by simp
    from Cons.prems True have "contents = (P @ buffer @ [LF]) @ [] @ cs" by simp
    from Cons.IH [OF this]
    have rest: "line_local (scan_regexp m) contents ?ys ?next"
      by (simp only: next_start)
    have final: "?ys = [] \<longleftrightarrow> cs = []" by (simp add: stream_chars_empty)
    have "\<exists>w. contents = P @ yield_line ?y @ w
              \<and> ((w = LF # cs \<and> lineEndingChars ?y = 1)
                 \<or> (w = CR # LF # cs \<and> lineEndingChars ?y = 2))"
    proof (cases "endsWith buffer [CR]")
      case True
      then have d: "drop (length buffer - 1) buffer = [CR]" and l: "1 \<le> length buffer"
        by (auto simp: endsWith_def split: if_splits)
      have "buffer = take (length buffer - 1) buffer @ drop (length buffer - 1) buffer"
        by simp
      with d have b: "buffer = take (length buffer - 1) buffer @ [CR]" by simp
      from l have "nat (max (int (length buffer) - 1) 0) = length buffer - 1"
        by (auto simp: max_def)
      with \<open>endsWith buffer [CR]\<close> have y: "yield_line ?y = take (length buffer - 1) buffer"
        "lineEndingChars ?y = 2"
        by (simp_all add: yield_terminated_def slice_def slice_index_def)
      from Cons.prems \<open>c = LF\<close> have "contents = P @ buffer @ LF # cs" by simp
      with b have "contents = P @ take (length buffer - 1) buffer @ CR # LF # cs"
        by (metis append.assoc append_Cons append_Nil)
      with y show ?thesis by simp
    next
      case False
      then have "yield_line ?y = buffer" "lineEndingChars ?y = 1"
        by (simp_all add: yield_terminated_def)
      with Cons.prems \<open>c = LF\<close> show ?thesis by simp
    qed
    then obtain w where contents: "contents = P @ yield_line ?y @ w"
      and shape: "(w = LF # cs \<and> lineEndingChars ?y = 1)
                 \<or> (w = CR # LF # cs \<and> lineEndingChars ?y = 2)"
      by blast
    from shape final
    have shape': "(w = [] \<and> lineEndingChars ?y = 0 \<and> ?ys = [])
                \<or> (w = LF # cs \<and> lineEndingChars ?y = 1 \<and> (?ys = [] \<longleftrightarrow> cs = []))
                \<or> (w = CR # LF # cs \<and> lineEndingChars ?y = 2 \<and> (?ys = [] \<longleftrightarrow> cs = []))"
      by blast
    from scan_line_condition [OF lm contents shape'] rest True
    show ?thesis by (simp del: upt_Suc)
  qed
qed

lemma line_matcher_local:
  assumes "line_matcher m" and "contents \<noteq> [] \<or> m [] = None"
  shows "line_local_on (scan_regexp m) byteLength contents"
proof (cases "streamFileLines byteLength contents = []")
  case True
  then have "contents = []" by (simp add: streamFileLines_def stream_chars_empty)
  with assms(2) True show ?thesis by (simp add: line_local_on_def scan_regexp_def)
next
  case False
  from stream_chars_local [OF assms(1), of contents "[]" "[]" contents byteLength] False
  show ?thesis by (simp add: line_local_on_def streamFileLines_def)
qed

lemma literal_line_matcher:
  assumes "\<forall>c \<in> set w. line_char c"
  shows "line_matcher (literal w)"
proof -
  have prefix: "take (length w) (takeWhile line_char s) = w \<and> length w \<le> length (takeWhile line_char s)"
    if "take (length w) s = w" for s
  proof -
    from that have "s = w @ drop (length w) s" by (metis append_take_drop_id)
    then have "takeWhile line_char s = w @ takeWhile line_char (drop (length w) s)"
      using assms by (metis takeWhile_append2)
    then show ?thesis by simp
  qed
  have whole: "take (length w) s = w" if "take (length w) (takeWhile line_char s) = w" for s
  proof -
    from that have "length (take (length w) (takeWhile line_char s)) = length w"
      by simp
    then have "length w \<le> length (takeWhile line_char s)"
      by (simp only: length_take)
    then have "take (length w) (takeWhile line_char s @ dropWhile line_char s)
                 = take (length w) (takeWhile line_char s)"
      by (simp del: takeWhile_dropWhile_id)
    with that show ?thesis by simp
  qed
  have "literal w s = literal w (takeWhile line_char s)
        \<and> (case literal w s of Some n \<Rightarrow> n \<le> length (takeWhile line_char s) | None \<Rightarrow> True)" for s
    using prefix [of s] whole [of s] by (auto simp: literal_def startsWith_def)
  then show ?thesis unfolding line_matcher_def by blast
qed

lemma literal_line_local:
  assumes "w \<noteq> []" and "\<forall>c \<in> set w. line_char c"
  shows "line_local_on (scan_regexp (literal w)) byteLength contents"
proof -
  from assms(1) have "literal w [] = None" by (auto simp: literal_def startsWith_def)
  with line_matcher_local [OF literal_line_matcher [OF assms(2)]] show ?thesis by blast
qed


text \<open>
  Claim C7, amended: for every file content and every regular expression that is
  line-local on it (at every position of every line, \<open>exec\<close> on the whole content finds
  what \<open>exec\<close> on the line finds, at the same column, and otherwise what it finds from the
  start of the next line on; a match lies in its line and does not begin before
  \<open>lastIndex\<close>), with fewer matches collected so far than the limit, the streaming scan
  and the full-buffer scan return the same flag and the same sequence of line, column and
  matched text. By \<open>line_matcher_local\<close> and \<open>literal_line_local\<close> the expressions that
  scan for a line matcher, such as a literal without line terminators, are line-local on
  every content that is not empty.
\<close>

theorem findMatches_agree_when_line_local:
  assumes "line_local_on regex byteLength contents" and "length found < limit"
  shows "fst (findMatchesStreaming regex byteLength relPath limit contents found)
           = fst (findMatchesFullScan regex byteLength relPath limit contents found)
       \<and> map projection (snd (findMatchesStreaming regex byteLength relPath limit contents found))
           = map projection (snd (findMatchesFullScan regex byteLength relPath limit contents found))"
proof (cases "streamFileLines byteLength contents")
  case Nil
  with assms(1) have "regex contents 0 = None" by (simp add: line_local_on_def)
  with Nil show ?thesis
    by (simp add: findMatchesStreaming_def findMatchesFullScan_def
        full_exec.simps [of _ _ _ _ _ _ 0 found])
next
  case (Cons y ys)
  let ?idx = "buildLineIndex byteLength contents"
  have offsets: "charOffsets ?idx = [] @ 0 # next_starts 0 (y # ys)"
    by (simp add: charOffsets_starts Cons)
  have opened: "only_last_open (y # ys)"
    using stream_chars_open [of byteLength "[]" contents] Cons [unfolded streamFileLines_def]
    by simp
  from assms(1) have local: "line_local regex contents (y # ys) 0"
    by (simp add: line_local_on_def Cons)
  have "same_matches
     (streaming_lines regex byteLength relPath limit (y # ys) (length ([] :: nat list)) 0 0 found)
     (full_exec regex byteLength relPath limit contents ?idx 0 found)"
    by (rule lines_simulation [OF line_index_sorted offsets opened local refl assms(2)])
  then show ?thesis
    by (simp add: same_matches_def findMatchesStreaming_def findMatchesFullScan_def Cons)
qed

theorem findMatches_agree_when_line_local_witness:
  "line_local_on (scan_regexp (literal (js ''ab''))) length (js ''ab'' @ CR # LF # js ''cab'')
   \<and> length ([] :: GrepMatch list) < 5
   \<and> fst (findMatchesStreaming (scan_regexp (literal (js ''ab''))) length (js ''f'') 5
            (js ''ab'' @ CR # LF # js ''cab'') [])
       = fst (findMatchesFullScan (scan_regexp (literal (js ''ab''))) length (js ''f'') 5
            (js ''ab'' @ CR # LF # js ''cab'') [])
   \<and> map projection (snd (findMatchesStreaming (scan_regexp (literal (js ''ab''))) length
            (js ''f'') 5 (js ''ab'' @ CR # LF # js ''cab'') []))
       = map projection (snd (findMatchesFullScan (scan_regexp (literal (js ''ab''))) length
            (js ''f'') 5 (js ''ab'' @ CR # LF # js ''cab'') []))
   \<and> map projection (snd (findMatchesFullScan (scan_regexp (literal (js ''ab''))) length
            (js ''f'') 5 (js ''ab'' @ CR # LF # js ''cab'') []))
       = [(1, 1, js ''ab''), (2, 2, js ''ab'')]"
  using findMatches_agree_when_line_local [OF line_local_example, of "[]" 5 "js ''f''"]
  by (simp add: line_local_example streaming_examples projection_def)

end
